theory Spec2Isabelle
  imports Main "HOL-Library.Multiset" "HOL-Library.Word" "HOL-Library.Signed_Division"
begin

section \<open>Token reconstruction: \<open>sliceSkipAt\<close> (auth/token.go)\<close>

text \<open>
  A Go \<open>string\<close> converted with \<open>[]byte(s)\<close> is a sequence of bytes: a \<open>string\<close>
  (\<open>char list\<close>) here. The positions are Go \<open>int\<close>s; \<open>sliceSkipAt\<close> only compares them
  and computes \<open>p + 1\<close> for \<open>0 \<le> p < len(b)\<close>, so nothing can wrap and they are \<open>int\<close>.
  A slice expression \<open>b[lo:hi]\<close> panics at run time unless \<open>0 \<le> lo \<le> hi \<le> cap(b)\<close>.
\<close>

datatype panic =
    SliceBoundsOutOfRange int int
  | IndexOutOfRange
  | NilDereference

text \<open>\<open>b[lo:hi]\<close> on a byte slice whose capacity is its length.\<close>

definition slice :: "string \<Rightarrow> int \<Rightarrow> int \<Rightarrow> panic + string" where
  "slice b lo hi =
     (if 0 \<le> lo \<and> lo \<le> hi \<and> hi \<le> int (length b)
      then Inr (take (nat (hi - lo)) (drop (nat lo) b))
      else Inl (SliceBoundsOutOfRange lo hi))"

text \<open>
  The inner loop of the insertion sort:
  \<^verbatim>\<open>for j > 0 && ps[j-1] > ps[j] { ps[j-1], ps[j] = ps[j], ps[j-1]; j-- }\<close>
\<close>

function sort_inner :: "int list \<Rightarrow> nat \<Rightarrow> int list" where
  "sort_inner ps j =
     (if 0 < j \<and> ps ! (j - 1) > ps ! j
      then sort_inner (ps[j - 1 := ps ! j, j := ps ! (j - 1)]) (j - 1)
      else ps)"
  by pat_completeness auto
termination
  by (relation "measure (\<lambda>(ps, j). j)") auto

declare sort_inner.simps [simp del]

text \<open>
  The outer loop: \<^verbatim>\<open>for i := 1; i < len(ps); i++ { j := i; ... }\<close>
\<close>

function sort_outer :: "int list \<Rightarrow> nat \<Rightarrow> int list" where
  "sort_outer ps i =
     (if i < length ps then sort_outer (sort_inner ps i) (i + 1) else ps)"
  by pat_completeness auto
termination
proof (relation "measure (\<lambda>(ps, i). length ps - i)")
  show "wf (measure (\<lambda>(ps, i). length ps - i))" by simp
next
  fix ps :: "int list" and i :: nat
  assume less: "i < length ps"
  have keeps: "length (sort_inner qs j) = length qs" for qs j
  proof (induction qs j rule: sort_inner.induct)
    case (1 qs j)
    then show ?case by (subst sort_inner.simps) simp
  qed
  show "((sort_inner ps i, i + 1), (ps, i)) \<in> measure (\<lambda>(ps, i). length ps - i)"
    using less by (simp add: keeps)
qed

declare sort_outer.simps [simp del]

text \<open>The defensive copy of \<open>positions\<close>, sorted in place.\<close>

definition sortPositions :: "int list \<Rightarrow> int list" where
  "sortPositions positions = sort_outer positions 1"

text \<open>
  The copying loop, with the final \<open>append(out, b[prev:]...)\<close>:
  \<^verbatim>\<open>
  for _, p := range ps {
      if p < 0 || p >= len(b) { continue }
      out = append(out, b[prev:p]...)
      prev = p + 1
  }
  out = append(out, b[prev:]...)
  \<close>
\<close>

fun copy_loop :: "string \<Rightarrow> int list \<Rightarrow> int \<Rightarrow> string \<Rightarrow> panic + string" where
  "copy_loop b [] prev out =
     (case slice b prev (int (length b)) of
        Inl e \<Rightarrow> Inl e
      | Inr frag \<Rightarrow> Inr (out @ frag))"
| "copy_loop b (p # ps) prev out =
     (if p < 0 \<or> p \<ge> int (length b) then copy_loop b ps prev out
      else (case slice b prev p of
              Inl e \<Rightarrow> Inl e
            | Inr frag \<Rightarrow> copy_loop b ps (p + 1) (out @ frag)))"

definition sliceSkipAt :: "string \<Rightarrow> int list \<Rightarrow> panic + string" where
  "sliceSkipAt s positions =
     (if length positions = 0 then Inr s
      else copy_loop s (sortPositions positions) 0 [])"

text \<open>
  What the documentation of \<open>sliceSkipAt\<close> asks for: the bytes of \<open>s\<close> whose position is
  not listed, in their original order.
\<close>

definition in_bounds :: "string \<Rightarrow> int \<Rightarrow> bool" where
  "in_bounds s p \<longleftrightarrow> 0 \<le> p \<and> p < int (length s)"

definition skip_listed :: "string \<Rightarrow> int list \<Rightarrow> string" where
  "skip_listed s positions =
     map (\<lambda>i. s ! i)
       (filter (\<lambda>i. int i \<notin> set (filter (in_bounds s) positions)) [0..<length s])"


section \<open>Errors and outcomes\<close>

text \<open>
  An \<open>error\<close> value is opaque when a collaborator produced it (the HTTP port, the WASM
  runtime), a plain message (\<open>errors.New\<close>, \<open>fmt.Errorf\<close> without \<open>%w\<close>), or a wrapper
  \<open>fmt.Errorf("prefix: %w", err)\<close>, written \<open>Errorf prefix err\<close>.
  A call that can also panic has three outcomes.
\<close>

datatype error =
    Opaque string
  | ErrorString string
  | Errorf string error

datatype 'a outcome =
    Ok 'a
  | Err error
  | Panicked panic

text \<open>Sequencing as Go does it: the first error or panic ends the function.\<close>

definition and_then :: "'a outcome \<Rightarrow> ('a \<Rightarrow> 'b outcome) \<Rightarrow> 'b outcome" where
  "and_then r k = (case r of Ok v \<Rightarrow> k v | Err e \<Rightarrow> Err e | Panicked x \<Rightarrow> Panicked x)"

section \<open>The WASM boundary\<close>

text \<open>
  The module \<open>data/css.wasm\<close> and the wazero runtime are not part of the sources: what they
  do is a parameter. An \<open>api.Function\<close> is what its \<open>Call\<close> returns for a list of
  \<open>uint64\<close> argument slots; a module is its table of exports (\<open>ExportedFunction\<close>
  returns \<open>nil\<close> for a name that is absent); a runtime is what \<open>CompileModule\<close> on the
  embedded bytes and \<open>InstantiateModule\<close> on the compiled module return.
\<close>

datatype wazero_CompiledModule = CompiledModule

type_synonym api_Function = "64 word list \<Rightarrow> error + 64 word list"

type_synonym api_Module = "string \<Rightarrow> api_Function option"

record wazero_Runtime =
  CompileModule :: "error + wazero_CompiledModule"
  InstantiateModule :: "wazero_CompiledModule \<Rightarrow> error + api_Module"

record tokenParser =
  cdx :: api_Function
  rdx :: api_Function
  bdx :: api_Function
  ndx :: api_Function
  mdx :: api_Function

definition getExport :: "api_Module \<Rightarrow> string \<Rightarrow> error + api_Function" where
  "getExport md name =
     (case md name of
        None \<Rightarrow> Inl (ErrorString (''export '' @ [CHR 0x22] @ name @ [CHR 0x22] @ '' not found''))
      | Some f \<Rightarrow> Inr f)"

definition newTokenParser :: "wazero_Runtime \<Rightarrow> error + tokenParser" where
  "newTokenParser rt =
     (case CompileModule rt of
        Inl err \<Rightarrow> Inl (Errorf ''compile wasm'' err)
      | Inr compiled \<Rightarrow>
     (case InstantiateModule rt compiled of
        Inl err \<Rightarrow> Inl (Errorf ''instantiate wasm'' err)
      | Inr md \<Rightarrow>
     (case getExport md ''cdx'' of Inl err \<Rightarrow> Inl err | Inr c \<Rightarrow>
     (case getExport md ''rdx'' of Inl err \<Rightarrow> Inl err | Inr r \<Rightarrow>
     (case getExport md ''bdx'' of Inl err \<Rightarrow> Inl err | Inr b \<Rightarrow>
     (case getExport md ''ndx'' of Inl err \<Rightarrow> Inl err | Inr n \<Rightarrow>
     (case getExport md ''mdx'' of Inl err \<Rightarrow> Inl err | Inr m \<Rightarrow>
        Inr \<lparr>cdx = c, rdx = r, bdx = b, ndx = n, mdx = m\<rparr>)))))))"

text \<open>
  \<open>uint64(uint32(a))\<close> keeps the low 32 bits of the Go \<open>int\<close> and extends them with
  zeros; \<open>int(int32(res[0]))\<close> reads the low 32 bits of the first result slot as a signed
  number. Indexing an empty result panics.
\<close>

definition arg_slot :: "int \<Rightarrow> 64 word" where
  "arg_slot a = ucast (word_of_int a :: 32 word)"

definition result_int :: "64 word \<Rightarrow> int" where
  "result_int r = sint (ucast r :: 32 word)"

definition call5 :: "api_Function \<Rightarrow> int \<Rightarrow> int \<Rightarrow> int \<Rightarrow> int \<Rightarrow> int \<Rightarrow> int outcome" where
  "call5 f a b c d e =
     (case f [arg_slot a, arg_slot b, arg_slot c, arg_slot d, arg_slot e] of
        Inl err \<Rightarrow> Err err
      | Inr res \<Rightarrow> (case res of [] \<Rightarrow> Panicked IndexOutOfRange | r # _ \<Rightarrow> Ok (result_int r)))"

record tokenIndices =
  access :: "int list"
  refresh :: "int list"

text \<open>The salts are a Go array \<open>[5]int\<close>: exactly five values.\<close>

type_synonym salts5 = "int \<times> int \<times> int \<times> int \<times> int"

definition indicesFromSalts :: "tokenParser \<Rightarrow> salts5 \<Rightarrow> tokenIndices outcome" where
  "indicesFromSalts p s =
     (case s of (s1, s2, s3, s4, s5) \<Rightarrow>
      and_then (call5 (cdx p) s1 s2 s3 s4 s5) (\<lambda>n.
      and_then (call5 (rdx p) s1 s2 s4 s3 s5) (\<lambda>l.
      and_then (call5 (bdx p) s1 s2 s4 s3 s5) (\<lambda>oo.
      and_then (call5 (ndx p) s1 s2 s4 s3 s5) (\<lambda>pp.
      and_then (call5 (mdx p) s1 s2 s4 s3 s5) (\<lambda>q.
      and_then (call5 (cdx p) s2 s1 s3 s5 s4) (\<lambda>a.
      and_then (call5 (rdx p) s2 s1 s3 s4 s5) (\<lambda>b.
      and_then (call5 (bdx p) s2 s1 s4 s3 s5) (\<lambda>cc.
      and_then (call5 (ndx p) s2 s1 s4 s3 s5) (\<lambda>d.
      and_then (call5 (mdx p) s2 s1 s4 s3 s5) (\<lambda>e.
        Ok \<lparr>access = [n, l, oo, pp, q], refresh = [a, b, cc, d, e]\<rparr>)))))))))))"

text \<open>
  The derivation as the specification words it: ten calls, five functions \<open>F1\<close> .. \<open>F5\<close>
  in two rounds with the listed argument orders, and no result unless all ten succeed.
\<close>

fun all_succeed :: "'a outcome list \<Rightarrow> 'a list outcome" where
  "all_succeed [] = Ok []"
| "all_succeed (r # rs) =
     (case r of
        Ok v \<Rightarrow> (case all_succeed rs of
                   Ok vs \<Rightarrow> Ok (v # vs)
                 | Err e \<Rightarrow> Err e
                 | Panicked x \<Rightarrow> Panicked x)
      | Err e \<Rightarrow> Err e
      | Panicked x \<Rightarrow> Panicked x)"

definition ten_calls ::
  "(int \<Rightarrow> int \<Rightarrow> int \<Rightarrow> int \<Rightarrow> int \<Rightarrow> 'a) \<Rightarrow> (int \<Rightarrow> int \<Rightarrow> int \<Rightarrow> int \<Rightarrow> int \<Rightarrow> 'a) \<Rightarrow>
   (int \<Rightarrow> int \<Rightarrow> int \<Rightarrow> int \<Rightarrow> int \<Rightarrow> 'a) \<Rightarrow> (int \<Rightarrow> int \<Rightarrow> int \<Rightarrow> int \<Rightarrow> int \<Rightarrow> 'a) \<Rightarrow>
   (int \<Rightarrow> int \<Rightarrow> int \<Rightarrow> int \<Rightarrow> int \<Rightarrow> 'a) \<Rightarrow> salts5 \<Rightarrow> 'a list" where
  "ten_calls F1 F2 F3 F4 F5 s =
     (case s of (s1, s2, s3, s4, s5) \<Rightarrow>
        [F1 s1 s2 s3 s4 s5, F2 s1 s2 s4 s3 s5, F3 s1 s2 s4 s3 s5,
         F4 s1 s2 s4 s3 s5, F5 s1 s2 s4 s3 s5,
         F1 s2 s1 s3 s5 s4, F2 s2 s1 s3 s4 s5, F3 s2 s1 s4 s3 s5,
         F4 s2 s1 s4 s3 s5, F5 s2 s1 s4 s3 s5])"

definition derivation_spec ::
  "(int \<Rightarrow> int \<Rightarrow> int \<Rightarrow> int \<Rightarrow> int \<Rightarrow> int outcome) \<Rightarrow>
   (int \<Rightarrow> int \<Rightarrow> int \<Rightarrow> int \<Rightarrow> int \<Rightarrow> int outcome) \<Rightarrow>
   (int \<Rightarrow> int \<Rightarrow> int \<Rightarrow> int \<Rightarrow> int \<Rightarrow> int outcome) \<Rightarrow>
   (int \<Rightarrow> int \<Rightarrow> int \<Rightarrow> int \<Rightarrow> int \<Rightarrow> int outcome) \<Rightarrow>
   (int \<Rightarrow> int \<Rightarrow> int \<Rightarrow> int \<Rightarrow> int \<Rightarrow> int outcome) \<Rightarrow> salts5 \<Rightarrow> tokenIndices outcome" where
  "derivation_spec F1 F2 F3 F4 F5 s =
     (case all_succeed (ten_calls F1 F2 F3 F4 F5 s) of
        Ok vs \<Rightarrow> Ok \<lparr>access = take 5 vs, refresh = drop 5 vs\<rparr>
      | Err e \<Rightarrow> Err e
      | Panicked x \<Rightarrow> Panicked x)"

section \<open>Time\<close>

text \<open>
  A \<open>time.Time\<close> is an instant, counted here in nanoseconds since the Unix epoch; the zero
  \<open>Time\<close> is 1 January of year 1. A \<open>time.Duration\<close> is an \<open>int64\<close> of nanoseconds and
  \<open>Sub\<close> saturates at its bounds. The clock is a parameter: \<open>clk k\<close> is what the
  \<open>k\<close>-th reading of \<open>time.Now()\<close> returns.
\<close>

type_synonym clock = "nat \<Rightarrow> int"

definition Second :: int where
  "Second = 1000000000"

definition zeroTime :: int where
  "zeroTime = - 62135596800 * Second"

definition time_IsZero :: "int \<Rightarrow> bool" where
  "time_IsZero t \<longleftrightarrow> t = zeroTime"

definition time_Unix :: "int \<Rightarrow> int" where
  "time_Unix sec = sec * Second"

definition minDuration :: int where
  "minDuration = - (2 ^ 63)"

definition maxDuration :: int where
  "maxDuration = 2 ^ 63 - 1"

definition time_Sub :: "int \<Rightarrow> int \<Rightarrow> int" where
  "time_Sub t u =
     (let d = t - u
      in if d < minDuration then minDuration
         else if maxDuration < d then maxDuration
         else d)"

section \<open>The Manager\<close>

record TokenResponse =
  Salt1 :: int
  Salt2 :: int
  Salt3 :: int
  Salt4 :: int
  Salt5 :: int
  AccessToken :: string
  RefreshToken :: string
  ServerTime :: int

text \<open>
  The port \<open>NepseHTTP\<close> is a parameter too: \<open>http m k\<close> is what the \<open>k\<close>-th call of
  \<open>GetTokens\<close> returns, an error or a pointer that may be \<open>nil\<close>.
\<close>

record Manager =
  http :: "nat \<Rightarrow> error + TokenResponse option"
  parser :: tokenParser
  maxUpdatePeriod :: int
  accessToken :: string
  refreshToken :: string
  tokenTS :: int
  salts :: salts5

text \<open>
  A run of one caller: the Manager, the number of \<open>GetTokens\<close> calls issued so far and the
  number of clock readings taken so far. \<open>completed\<close> is a history variable that the
  code does not have: the number of update cycles that ran to their successful end.
\<close>

record world =
  mgr :: Manager
  fetches :: nat
  ticks :: nat
  completed :: nat

definition NewManager ::
  "wazero_Runtime \<Rightarrow> (nat \<Rightarrow> error + TokenResponse option) \<Rightarrow> error + Manager" where
  "NewManager rt httpClient =
     (case newTokenParser rt of
        Inl err \<Rightarrow> Inl (Errorf ''init wasm parser'' err)
      | Inr p \<Rightarrow>
        Inr \<lparr>http = httpClient, parser = p, maxUpdatePeriod = 45 * Second,
             accessToken = [], refreshToken = [], tokenTS = zeroTime,
             salts = (0, 0, 0, 0, 0)\<rparr>)"

definition Manager_isValid :: "clock \<Rightarrow> world \<Rightarrow> bool \<times> world" where
  "Manager_isValid clk w =
     (if accessToken (mgr w) = [] \<or> time_IsZero (tokenTS (mgr w)) then (False, w)
      else (time_Sub (clk (ticks w)) (tokenTS (mgr w)) < maxUpdatePeriod (mgr w),
            w\<lparr>ticks := ticks w + 1\<rparr>))"

definition Manager_parseResponse ::
  "Manager \<Rightarrow> TokenResponse \<Rightarrow> (string \<times> string \<times> salts5 \<times> int) outcome" where
  "Manager_parseResponse m tr =
     (let salts' = (Salt1 tr, Salt2 tr, Salt3 tr, Salt4 tr, Salt5 tr)
      in case indicesFromSalts (parser m) salts' of
           Err err \<Rightarrow> Err (Errorf ''wasm parse'' err)
         | Panicked x \<Rightarrow> Panicked x
         | Ok idx \<Rightarrow>
        (case sliceSkipAt (AccessToken tr) (access idx) of
           Inl x \<Rightarrow> Panicked x
         | Inr parsedAccess \<Rightarrow>
        (case sliceSkipAt (RefreshToken tr) (refresh idx) of
           Inl x \<Rightarrow> Panicked x
         | Inr parsedRefresh \<Rightarrow>
             Ok (parsedAccess, parsedRefresh, salts', ServerTime tr sdiv 1000))))"

text \<open>
  \<open>update\<close> for a single caller: \<open>singleflight.Do\<close> then runs the function it is given.
\<close>

definition Manager_update :: "clock \<Rightarrow> world \<Rightarrow> unit outcome \<times> world" where
  "Manager_update clk w =
     (case Manager_isValid clk w of
        (True, w1) \<Rightarrow> (Ok (), w1)
      | (False, w1) \<Rightarrow>
        (let w2 = w1\<lparr>fetches := fetches w1 + 1\<rparr>
         in case http (mgr w1) (fetches w1) of
              Inl err \<Rightarrow> (Err (Errorf ''get token'' err), w2)
            | Inr None \<Rightarrow> (Panicked NilDereference, w2)
            | Inr (Some tr) \<Rightarrow>
           (case Manager_parseResponse (mgr w1) tr of
              Err err \<Rightarrow> (Err err, w2)
            | Panicked x \<Rightarrow> (Panicked x, w2)
            | Ok (access', refresh', salts', ts) \<Rightarrow>
                (if ts > 0
                 then (Ok (), w2\<lparr>mgr := (mgr w2)\<lparr>accessToken := access', refreshToken := refresh',
                                              salts := salts', tokenTS := time_Unix ts\<rparr>,
                                 completed := completed w2 + 1\<rparr>)
                 else (Ok (), w2\<lparr>mgr := (mgr w2)\<lparr>accessToken := access', refreshToken := refresh',
                                              salts := salts', tokenTS := clk (ticks w2)\<rparr>,
                                 ticks := ticks w2 + 1,
                                 completed := completed w2 + 1\<rparr>)))))"

definition Manager_AccessToken :: "clock \<Rightarrow> world \<Rightarrow> string outcome \<times> world" where
  "Manager_AccessToken clk w =
     (case Manager_isValid clk w of
        (True, w1) \<Rightarrow> (Ok (accessToken (mgr w1)), w1)
      | (False, w1) \<Rightarrow>
        (case Manager_update clk w1 of
           (Err err, w2) \<Rightarrow> (Err err, w2)
         | (Panicked x, w2) \<Rightarrow> (Panicked x, w2)
         | (Ok u, w2) \<Rightarrow>
             (if accessToken (mgr w2) = []
              then (Err (ErrorString ''empty access token after update''), w2)
              else (Ok (accessToken (mgr w2)), w2))))"

definition Manager_RefreshToken :: "clock \<Rightarrow> world \<Rightarrow> string outcome \<times> world" where
  "Manager_RefreshToken clk w =
     (case Manager_isValid clk w of
        (True, w1) \<Rightarrow> (Ok (refreshToken (mgr w1)), w1)
      | (False, w1) \<Rightarrow>
        (case Manager_update clk w1 of
           (Err err, w2) \<Rightarrow> (Err err, w2)
         | (Panicked x, w2) \<Rightarrow> (Panicked x, w2)
         | (Ok u, w2) \<Rightarrow>
             (if refreshToken (mgr w2) = []
              then (Err (ErrorString ''empty refresh token after update''), w2)
              else (Ok (refreshToken (mgr w2)), w2))))"

definition Manager_ForceUpdate :: "clock \<Rightarrow> world \<Rightarrow> unit outcome \<times> world" where
  "Manager_ForceUpdate clk w = Manager_update clk w"


section \<open>Runs of a Manager\<close>

text \<open>
  A Manager starts as \<open>NewManager\<close> builds it, and a caller then calls its three
  operations in any order.
\<close>

definition new_world :: "Manager \<Rightarrow> world" where
  "new_world m = \<lparr>mgr = m, fetches = 0, ticks = 0, completed = 0\<rparr>"

inductive reachable :: "clock \<Rightarrow> world \<Rightarrow> bool" for clk :: clock where
  start: "NewManager rt httpClient = Inr m \<Longrightarrow> reachable clk (new_world m)"
| access_token: "reachable clk w \<Longrightarrow> reachable clk (snd (Manager_AccessToken clk w))"
| refresh_token: "reachable clk w \<Longrightarrow> reachable clk (snd (Manager_RefreshToken clk w))"
| force_update: "reachable clk w \<Longrightarrow> reachable clk (snd (Manager_ForceUpdate clk w))"

text \<open>
  Freshness as the specification words it: a cached token, a timestamp, and less than the
  window of 45 seconds between the timestamp and the reading \<open>now\<close> of the clock.
\<close>

definition fresh :: "int \<Rightarrow> Manager \<Rightarrow> bool" where
  "fresh now m \<longleftrightarrow>
     accessToken m \<noteq> [] \<and> tokenTS m \<noteq> zeroTime \<and> now - tokenTS m < 45 * Second"

text \<open>
  The credential state as \<open>NewManager\<close> leaves it, and what every run keeps: the window
  of 45 seconds, and the untouched credential state as long as no update has completed.
\<close>

definition never_updated :: "Manager \<Rightarrow> bool" where
  "never_updated m \<longleftrightarrow>
     accessToken m = [] \<and> refreshToken m = [] \<and> tokenTS m = zeroTime \<and> salts m = (0, 0, 0, 0, 0)"

definition run_invariant :: "world \<Rightarrow> bool" where
  "run_invariant w \<longleftrightarrow>
     maxUpdatePeriod (mgr w) = 45 * Second \<and> (completed w = 0 \<longrightarrow> never_updated (mgr w))"

section \<open>Concurrent callers of \<open>AccessToken\<close>\<close>

text \<open>
  Several goroutines call \<open>AccessToken\<close> on one Manager. Each caller is at one point of
  the accessor, and a scheduler picks the caller that takes the next atomic step:
  \<^item> \<open>Start\<close>: \<open>m.isValid()\<close> under the read lock, then \<open>ReadCached\<close> or \<open>EnterUpdate\<close>;
  \<^item> \<open>ReadCached\<close>: the cached token is read under the read lock and returned;
  \<^item> \<open>EnterUpdate\<close>: \<open>m.sf.Do("token_update", fn)\<close> is entered. \<open>singleflight\<close> is a
    library; by its documentation only one execution of \<open>fn\<close> is in flight for a key, and a
    caller that arrives meanwhile waits for it and receives the same result. So the
    caller becomes the leader (\<open>flight\<close> holds its index) or is \<open>Waiting\<close>;
  \<^item> \<open>LeaderCheck\<close>, \<open>LeaderFetch\<close>, \<open>LeaderStore\<close>: the body of \<open>fn\<close>, that is the
    re-check of \<open>isValid\<close>, the call of \<open>GetTokens\<close>, and \<open>parseResponse\<close> with the
    assignment of the four fields under the write lock;
  \<^item> \<open>LeaderFinish\<close>: \<open>fn\<close> has returned, the flight ends and its result goes to the
    leader and to every waiting caller;
  \<^item> \<open>AfterUpdate\<close>: \<open>Do\<close> has returned; an error is returned as it is, otherwise the
    token is read and an empty one reported;
  \<^item> \<open>Done\<close>: the accessor has returned.
\<close>

datatype pc =
    Start
  | ReadCached
  | EnterUpdate
  | LeaderCheck
  | LeaderFetch
  | LeaderStore "error + TokenResponse option"
  | LeaderFinish "unit outcome"
  | Waiting
  | AfterUpdate "unit outcome"
  | Done "string outcome"

record system =
  shared :: world
  flight :: "nat option"
  pcs :: "pc list"

definition goto :: "nat \<Rightarrow> pc \<Rightarrow> system \<Rightarrow> system" where
  "goto i p s = s\<lparr>pcs := (pcs s)[i := p]\<rparr>"

definition store :: "clock \<Rightarrow> string \<Rightarrow> string \<Rightarrow> salts5 \<Rightarrow> int \<Rightarrow> world \<Rightarrow> world" where
  "store clk access' refresh' salts' ts w =
     (if ts > 0
      then w\<lparr>mgr := (mgr w)\<lparr>accessToken := access', refreshToken := refresh',
                              salts := salts', tokenTS := time_Unix ts\<rparr>,
             completed := completed w + 1\<rparr>
      else w\<lparr>mgr := (mgr w)\<lparr>accessToken := access', refreshToken := refresh',
                              salts := salts', tokenTS := clk (ticks w)\<rparr>,
             ticks := ticks w + 1,
             completed := completed w + 1\<rparr>)"

definition release :: "unit outcome \<Rightarrow> pc \<Rightarrow> pc" where
  "release r p = (case p of Waiting \<Rightarrow> AfterUpdate r | _ \<Rightarrow> p)"

definition step :: "clock \<Rightarrow> nat \<Rightarrow> system \<Rightarrow> system" where
  "step clk i s =
     (if length (pcs s) \<le> i then s
      else case pcs s ! i of
        Start \<Rightarrow>
          (case Manager_isValid clk (shared s) of
             (True, w) \<Rightarrow> goto i ReadCached (s\<lparr>shared := w\<rparr>)
           | (False, w) \<Rightarrow> goto i EnterUpdate (s\<lparr>shared := w\<rparr>))
      | ReadCached \<Rightarrow> goto i (Done (Ok (accessToken (mgr (shared s))))) s
      | EnterUpdate \<Rightarrow>
          (case flight s of
             Some l \<Rightarrow> goto i Waiting s
           | None \<Rightarrow> goto i LeaderCheck (s\<lparr>flight := Some i\<rparr>))
      | LeaderCheck \<Rightarrow>
          (case Manager_isValid clk (shared s) of
             (True, w) \<Rightarrow> goto i (LeaderFinish (Ok ())) (s\<lparr>shared := w\<rparr>)
           | (False, w) \<Rightarrow> goto i LeaderFetch (s\<lparr>shared := w\<rparr>))
      | LeaderFetch \<Rightarrow>
          goto i (LeaderStore (http (mgr (shared s)) (fetches (shared s))))
            (s\<lparr>shared := (shared s)\<lparr>fetches := fetches (shared s) + 1\<rparr>\<rparr>)
      | LeaderStore resp \<Rightarrow>
          (case resp of
             Inl err \<Rightarrow> goto i (LeaderFinish (Err (Errorf ''get token'' err))) s
           | Inr None \<Rightarrow> goto i (LeaderFinish (Panicked NilDereference)) s
           | Inr (Some tr) \<Rightarrow>
              (case Manager_parseResponse (mgr (shared s)) tr of
                 Err err \<Rightarrow> goto i (LeaderFinish (Err err)) s
               | Panicked x \<Rightarrow> goto i (LeaderFinish (Panicked x)) s
               | Ok (access', refresh', salts', ts) \<Rightarrow>
                   goto i (LeaderFinish (Ok ()))
                     (s\<lparr>shared := store clk access' refresh' salts' ts (shared s)\<rparr>)))
      | LeaderFinish r \<Rightarrow>
          s\<lparr>flight := None, pcs := map (release r) ((pcs s)[i := AfterUpdate r])\<rparr>
      | Waiting \<Rightarrow> s
      | AfterUpdate r \<Rightarrow>
          (case r of
             Err err \<Rightarrow> goto i (Done (Err err)) s
           | Panicked x \<Rightarrow> goto i (Done (Panicked x)) s
           | Ok u \<Rightarrow>
               (if accessToken (mgr (shared s)) = []
                then goto i (Done (Err (ErrorString ''empty access token after update''))) s
                else goto i (Done (Ok (accessToken (mgr (shared s))))) s))
      | Done r \<Rightarrow> s)"

definition run :: "clock \<Rightarrow> nat list \<Rightarrow> system \<Rightarrow> system" where
  "run clk schedule s = foldl (\<lambda>s i. step clk i s) s schedule"



text \<open>What the accessor returns after \<open>update\<close> returned \<open>r\<close>.\<close>

definition accessor_result :: "unit outcome \<Rightarrow> world \<Rightarrow> string outcome" where
  "accessor_result r w =
     (case r of Err err \<Rightarrow> Err err | Panicked x \<Rightarrow> Panicked x
      | Ok u \<Rightarrow> if accessToken (mgr w) = []
                then Err (ErrorString ''empty access token after update'')
                else Ok (accessToken (mgr w)))"

text \<open>
  At most one caller is inside \<open>fn\<close>. When the first bundle is good (the Manager is new,
  the first \<open>GetTokens\<close> answers with a bundle whose reconstructed access token is not
  empty, and every reading of the clock is within the window of its timestamp), a run
  goes through three stages: no fetch yet, the leader holding the fetched bundle, and
  the bundle stored.
\<close>

fun is_leader :: "pc \<Rightarrow> bool" where
  "is_leader LeaderCheck = True"
| "is_leader LeaderFetch = True"
| "is_leader (LeaderStore resp) = True"
| "is_leader (LeaderFinish r) = True"
| "is_leader p = False"







section \<open>A stub environment\<close>

text \<open>
  A module whose five exports ignore their arguments and return fixed index slots, a
  runtime that loads it, a token source that always answers with the same bundle (salts
  1 to 5), the Manager that \<open>NewManager\<close> builds from them, and a clock whose first
  reading is 1700000010 seconds after the epoch and whose later readings are 1700000100.
\<close>

definition stub_function :: "64 word \<Rightarrow> api_Function" where
  "stub_function r = (\<lambda>args. Inr [r])"

definition stub_module :: "api_Function list \<Rightarrow> api_Module" where
  "stub_module fs = map_of (zip [''cdx'', ''rdx'', ''bdx'', ''ndx'', ''mdx''] fs)"

definition stub_runtime :: "api_Module \<Rightarrow> wazero_Runtime" where
  "stub_runtime md = \<lparr>CompileModule = Inr CompiledModule, InstantiateModule = (\<lambda>c. Inr md)\<rparr>"

definition stub_indices :: "api_Function list" where
  "stub_indices = map stub_function [1, 3, 100, 0xFFFFFFFF, 200]"

definition stub_bundle :: "string \<Rightarrow> string \<Rightarrow> int \<Rightarrow> TokenResponse" where
  "stub_bundle rawAccess rawRefresh serverTime =
     \<lparr>Salt1 = 1, Salt2 = 2, Salt3 = 3, Salt4 = 4, Salt5 = 5,
      AccessToken = rawAccess, RefreshToken = rawRefresh, ServerTime = serverTime\<rparr>"

definition stub_http :: "TokenResponse \<Rightarrow> nat \<Rightarrow> error + TokenResponse option" where
  "stub_http bundle k = Inr (Some bundle)"

definition stub_manager :: "TokenResponse \<Rightarrow> Manager" where
  "stub_manager bundle =
     \<lparr>http = stub_http bundle,
      parser = \<lparr>cdx = stub_function 1, rdx = stub_function 3, bdx = stub_function 100,
                ndx = stub_function 0xFFFFFFFF, mdx = stub_function 200\<rparr>,
      maxUpdatePeriod = 45 * Second,
      accessToken = [], refreshToken = [], tokenTS = zeroTime, salts = (0, 0, 0, 0, 0)\<rparr>"

definition stub_clock :: clock where
  "stub_clock k = (if k = 0 then time_Unix 1700000010 else time_Unix 1700000100)"


text \<open>
  Exports that return one of their arguments, which shows the order of the arguments, and
  an export whose call fails.
\<close>

definition nth_arg :: "nat \<Rightarrow> api_Function" where
  "nth_arg k = (\<lambda>args. if k < length args then Inr [args ! k] else Inl (Opaque ''arity''))"

definition trap :: api_Function where
  "trap = (\<lambda>args. Inl (Opaque ''unreachable''))"

section \<open>The insertion sort sorts\<close>

lemma length_sort_inner [simp]: "length (sort_inner ps j) = length ps"
proof (induction ps j rule: sort_inner.induct)
  case (1 ps j)
  then show ?case
    by (subst sort_inner.simps) simp
qed

lemma insort_snoc_less: "x < a \<Longrightarrow> insort x (A @ [a]) = insort x A @ [a]" for x :: int
  by (induction A) auto

lemma sort_inner_insort:
  "j < length ps \<Longrightarrow> sorted (take j ps) \<Longrightarrow>
   sort_inner ps j = insort (ps ! j) (take j ps) @ drop (Suc j) ps"
proof (induction ps j rule: sort_inner.induct)
  case (1 ps j)
  show ?case
  proof (cases "0 < j \<and> ps ! (j - 1) > ps ! j")
    case True
    then obtain k where k: "j = Suc k" by (cases j) auto
    let ?ps' = "ps[j - 1 := ps ! j, j := ps ! (j - 1)]"
    have tk: "take k ?ps' = take k ps" using k by simp
    have srt: "sorted (take k ps)"
      using "1.prems" k by (metis sorted_wrt_take take_take min.cobounded1 le_SucI order_refl min_def)
    have "sort_inner ps j = sort_inner ?ps' k"
      using True k by (subst sort_inner.simps) simp
    also have "\<dots> = insort (?ps' ! k) (take k ?ps') @ drop (Suc k) ?ps'"
      using "1.IH" True "1.prems" k tk srt by simp
    also have "?ps' ! k = ps ! j" using k "1.prems" by simp
    also have "drop (Suc k) ?ps' = ps ! k # drop (Suc j) ps"
    proof -
      have "drop (Suc k) ?ps' = (drop (Suc k) ps)[0 := ps ! k]"
        using k by (simp add: drop_update_swap)
      also have "drop (Suc k) ps = ps ! j # drop (Suc j) ps"
        using k "1.prems" by (simp add: Cons_nth_drop_Suc)
      finally show ?thesis by simp
    qed
    also have "insort (ps ! j) (take k ?ps') @ ps ! k # drop (Suc j) ps
             = insort (ps ! j) (take j ps) @ drop (Suc j) ps"
      using True k "1.prems" tk by (simp add: take_Suc_conv_app_nth insort_snoc_less)
    finally show ?thesis .
  next
    case False
    then have e: "sort_inner ps j = ps" by (subst sort_inner.simps) auto
    have "insort (ps ! j) (take j ps) = take j ps @ [ps ! j]"
    proof (rule sorted_insort_is_snoc)
      show "sorted (take j ps)" by fact
      show "\<forall>x\<in>set (take j ps). x \<le> ps ! j"
      proof (cases j)
        case 0 then show ?thesis by simp
      next
        case (Suc k)
        then have le: "ps ! k \<le> ps ! j" using False by simp
        have "take j ps = take k ps @ [ps ! k]" using Suc "1.prems" by (simp add: take_Suc_conv_app_nth)
        with "1.prems"(2) have "\<forall>x\<in>set (take k ps). x \<le> ps ! k" by (simp add: sorted_append)
        then show ?thesis using le \<open>take j ps = take k ps @ [ps ! k]\<close> by auto
      qed
    qed
    then show ?thesis using e "1.prems" by (simp add: id_take_nth_drop[symmetric])
  qed
qed


lemma sort_inner_mset:
  assumes "j < length ps" "sorted (take j ps)"
  shows "mset (sort_inner ps j) = mset ps"
proof -
  have "mset (sort_inner ps j) = mset (take j ps) + {#ps ! j#} + mset (drop (Suc j) ps)"
    using assms by (simp add: sort_inner_insort)
  also have "\<dots> = mset (take j ps @ ps ! j # drop (Suc j) ps)" by simp
  also have "take j ps @ ps ! j # drop (Suc j) ps = ps"
    using assms(1) by (simp add: id_take_nth_drop[symmetric])
  finally show ?thesis .
qed

lemma sort_inner_sorted_prefix:
  assumes "j < length ps" "sorted (take j ps)"
  shows "sorted (take (Suc j) (sort_inner ps j))"
proof -
  have "length (insort (ps ! j) (take j ps)) = Suc j" using assms(1) by simp
  then have "take (Suc j) (sort_inner ps j) = insort (ps ! j) (take j ps)"
    using assms by (simp add: sort_inner_insort)
  then show ?thesis using assms(2) by (simp add: sorted_insort)
qed

lemma sort_outer_sorts:
  "sorted (take i ps) \<Longrightarrow> sorted (sort_outer ps i) \<and> mset (sort_outer ps i) = mset ps"
proof (induction ps i rule: sort_outer.induct)
  case (1 ps i)
  show ?case
  proof (cases "i < length ps")
    case True
    then have "sort_outer ps i = sort_outer (sort_inner ps i) (i + 1)"
      by (subst sort_outer.simps) simp
    moreover have "sorted (take (i + 1) (sort_inner ps i))"
      using sort_inner_sorted_prefix[OF True "1.prems"] by simp
    ultimately show ?thesis
      using "1.IH"[OF True] sort_inner_mset[OF True "1.prems"] by simp
  next
    case False
    then have "sort_outer ps i = ps" by (subst sort_outer.simps) simp
    then show ?thesis using "1.prems" False by simp
  qed
qed

lemma sortPositions_sort: "sortPositions ps = sort ps"
proof -
  have "sorted (take 1 ps)" by (cases ps) simp_all
  then have "sorted (sortPositions ps)" "mset (sortPositions ps) = mset ps"
    unfolding sortPositions_def using sort_outer_sorts by blast+
  then show ?thesis by (simp add: properties_for_sort)
qed


lemma slice_nths:
  assumes "0 \<le> lo" "lo \<le> hi" "hi \<le> int (length b)"
  shows "slice b lo hi = Inr (map (\<lambda>i. b ! i) [nat lo..<nat hi])"
proof -
  have "take (nat (hi - lo)) (drop (nat lo) b) = map (\<lambda>i. b ! i) [nat lo..<nat hi]"
    using assms by (intro nth_equalityI) (auto simp: nat_diff_distrib)
  then show ?thesis using assms by (simp add: slice_def)
qed

lemma copy_loop_strict:
  assumes "sorted_wrt (<) ps" "0 \<le> prev" "prev \<le> int (length b)"
    and "\<forall>p\<in>set ps. p < 0 \<or> prev \<le> p"
  shows "copy_loop b ps prev out =
         Inr (out @ map (\<lambda>i. b ! i) (filter (\<lambda>i. int i \<notin> set ps) [nat prev..<length b]))"
  using assms
proof (induction ps arbitrary: prev out)
  case Nil
  then show ?case by (simp add: slice_nths)
next
  case (Cons p ps)
  have strict: "sorted_wrt (<) ps" and above: "\<forall>q\<in>set ps. p < q"
    using Cons.prems(1) by simp_all
  show ?case
  proof (cases "p < 0 \<or> p \<ge> int (length b)")
    case True
    have same: "filter (\<lambda>i. int i \<notin> set (p # ps)) [nat prev..<length b]
              = filter (\<lambda>i. int i \<notin> set ps) [nat prev..<length b]"
      using True by (intro filter_cong) auto
    have "copy_loop b (p # ps) prev out = copy_loop b ps prev out"
      using True by simp
    also have "\<dots> = Inr (out @ map (\<lambda>i. b ! i)
                    (filter (\<lambda>i. int i \<notin> set ps) [nat prev..<length b]))"
      using Cons.IH[OF strict Cons.prems(2,3)] Cons.prems(4) by simp
    finally show ?thesis using same by simp
  next
    case False
    then have p0: "0 \<le> p" and pl: "p < int (length b)" by simp_all
    have pp: "prev \<le> p" using Cons.prems(4) p0 by auto
    have next_ok: "\<forall>q\<in>set ps. q < 0 \<or> p + 1 \<le> q" using above by auto
    have split: "[nat prev..<length b] = [nat prev..<nat p] @ nat p # [Suc (nat p)..<length b]"
    proof -
      have "nat prev \<le> nat p" "nat p + (length b - nat p) = length b"
        using pp pl Cons.prems(2) by auto
      then have "[nat prev..<length b] = [nat prev..<nat p] @ [nat p..<length b]"
        using upt_add_eq_append[of "nat prev" "nat p" "length b - nat p"] by simp
      moreover have "[nat p..<length b] = nat p # [Suc (nat p)..<length b]"
        using pl p0 by (simp add: upt_conv_Cons)
      ultimately show ?thesis by simp
    qed
    have keep: "filter (\<lambda>i. int i \<notin> set (p # ps)) [nat prev..<nat p] = [nat prev..<nat p]"
    proof (rule filter_True, rule ballI)
      fix i assume "i \<in> set [nat prev..<nat p]"
      then have lt: "int i < p" by auto
      have "int i \<notin> set ps"
      proof
        assume "int i \<in> set ps"
        with above have "p < int i" by blast
        with lt show False by simp
      qed
      with lt show "int i \<notin> set (p # ps)" by auto
    qed
    have rest: "filter (\<lambda>i. int i \<notin> set (p # ps)) [Suc (nat p)..<length b]
              = filter (\<lambda>i. int i \<notin> set ps) [Suc (nat p)..<length b]"
      using p0 by (intro filter_cong) auto
    have "copy_loop b (p # ps) prev out
          = copy_loop b ps (p + 1) (out @ map (\<lambda>i. b ! i) [nat prev..<nat p])"
      using False pp pl Cons.prems(2) by (simp add: slice_nths)
    also have "\<dots> = Inr ((out @ map (\<lambda>i. b ! i) [nat prev..<nat p]) @ map (\<lambda>i. b ! i)
                    (filter (\<lambda>i. int i \<notin> set ps) [nat (p + 1)..<length b]))"
      using Cons.IH[OF strict _ _ next_ok] p0 pl by simp
    also have "nat (p + 1) = Suc (nat p)" using p0 by simp
    finally show ?thesis
      using split keep rest p0 by simp
  qed
qed


lemma skip_listed_all: "skip_listed s ps =
    map (\<lambda>i. s ! i) (filter (\<lambda>i. int i \<notin> set ps) [0..<length s])"
proof -
  have "filter (\<lambda>i. int i \<notin> set (filter (in_bounds s) ps)) [0..<length s]
      = filter (\<lambda>i. int i \<notin> set ps) [0..<length s]"
    by (intro filter_cong) (auto simp: in_bounds_def)
  then show ?thesis by (simp add: skip_listed_def)
qed

lemma sliceSkipAt_distinct:
  assumes "distinct ps"
  shows "sliceSkipAt s ps = Inr (skip_listed s ps)"
proof (cases "ps = []")
  case True
  then show ?thesis by (simp add: sliceSkipAt_def skip_listed_all map_nth)
next
  case False
  have "sorted_wrt (<) (sort ps)"
    using assms by (simp add: strict_sorted_iff)
  then have "copy_loop s (sort ps) 0 [] =
         Inr ([] @ map (\<lambda>i. s ! i) (filter (\<lambda>i. int i \<notin> set (sort ps)) [nat 0..<length s]))"
    by (intro copy_loop_strict) auto
  then show ?thesis using False by (simp add: sliceSkipAt_def skip_listed_all sortPositions_sort)
qed

lemmas sliceSkipAt_eval =
  sliceSkipAt_def sortPositions_def sort_outer.simps sort_inner.simps slice_def

section \<open>The derivation is ten calls in sequence\<close>

lemma and_then_Ok [simp]: "and_then (Ok v) k = k v"
  by (simp add: and_then_def)

lemma and_then_assoc: "and_then (and_then r f) g = and_then r (\<lambda>v. and_then (f v) g)"
  by (cases r) (simp_all add: and_then_def)

lemma all_succeed_and_then:
  "all_succeed (r # rs) = and_then r (\<lambda>v. and_then (all_succeed rs) (\<lambda>vs. Ok (v # vs)))"
  by (cases r; cases "all_succeed rs") (simp_all add: and_then_def)

lemma derivation_spec_and_then:
  "derivation_spec F1 F2 F3 F4 F5 s =
     and_then (all_succeed (ten_calls F1 F2 F3 F4 F5 s))
       (\<lambda>vs. Ok \<lparr>access = take 5 vs, refresh = drop 5 vs\<rparr>)"
  by (cases "all_succeed (ten_calls F1 F2 F3 F4 F5 s)") (simp_all add: derivation_spec_def and_then_def)

lemma indicesFromSalts_refines:
  "indicesFromSalts p s =
     derivation_spec (call5 (cdx p)) (call5 (rdx p)) (call5 (bdx p)) (call5 (ndx p)) (call5 (mdx p)) s"
proof (cases s)
  case (fields s1 s2 s3 s4 s5)
  show ?thesis
    unfolding derivation_spec_and_then indicesFromSalts_def ten_calls_def fields
    by (simp only: all_succeed_and_then all_succeed.simps(1) and_then_assoc and_then_Ok prod.case)
       simp
qed

lemma all_succeed_map_Ok: "all_succeed (map Ok vs) = Ok vs"
  by (induction vs) simp_all

lemma all_succeed_first_error:
  "Err e \<in> set rs \<Longrightarrow> \<forall>x. Panicked x \<notin> set rs \<Longrightarrow> \<exists>e'. Err e' \<in> set rs \<and> all_succeed rs = Err e'"
proof (induction rs)
  case Nil
  then show ?case by simp
next
  case (Cons r rs)
  show ?case
  proof (cases r)
    case (Ok v)
    with Cons.prems have "Err e \<in> set rs" "\<forall>x. Panicked x \<notin> set rs" by auto
    from Cons.IH[OF this] obtain e' where "Err e' \<in> set rs" "all_succeed rs = Err e'" by blast
    with Ok show ?thesis by auto
  next
    case (Err e0)
    then show ?thesis by auto
  next
    case (Panicked x)
    with Cons.prems show ?thesis by auto
  qed
qed

lemma new_parser:
  assumes "CompileModule rt = Inr c" "InstantiateModule rt c = Inr md"
    and "md ''cdx'' = Some F1" "md ''rdx'' = Some F2" "md ''bdx'' = Some F3"
    and "md ''ndx'' = Some F4" "md ''mdx'' = Some F5"
  shows "newTokenParser rt = Inr \<lparr>cdx = F1, rdx = F2, bdx = F3, ndx = F4, mdx = F5\<rparr>"
  using assms by (simp add: newTokenParser_def getExport_def)

lemma parseResponse_wraps:
  "indicesFromSalts (parser m) (Salt1 tr, Salt2 tr, Salt3 tr, Salt4 tr, Salt5 tr) = Err e \<Longrightarrow>
   Manager_parseResponse m tr = Err (Errorf ''wasm parse'' e)"
  by (simp add: Manager_parseResponse_def)

lemma call5_nth_arg:
  "k < 5 \<Longrightarrow> call5 (nth_arg k) a b c d e = Ok (result_int ([arg_slot a, arg_slot b, arg_slot c, arg_slot d, arg_slot e] ! k))"
  by (simp add: call5_def nth_arg_def)

lemma call5_trap: "call5 trap a b c d e = Err (Opaque ''unreachable'')"
  by (simp add: call5_def trap_def)

lemma slot_small: "result_int (arg_slot 1) = 1" "result_int (arg_slot 2) = 2" "result_int (arg_slot 3) = 3"
   "result_int (arg_slot 4) = 4" "result_int (arg_slot 5) = 5"
  by (simp_all add: result_int_def arg_slot_def)

section \<open>The Manager, one call at a time\<close>

lemma window_in_range: "time_Sub t u < 45 * Second \<longleftrightarrow> t - u < 45 * Second"
  by (simp add: time_Sub_def minDuration_def maxDuration_def Second_def Let_def)

lemma isValid_fresh:
  assumes "maxUpdatePeriod (mgr w) = 45 * Second"
  shows "Manager_isValid clk w =
     (if accessToken (mgr w) = [] \<or> tokenTS (mgr w) = zeroTime then (False, w)
      else (fresh (clk (ticks w)) (mgr w), w\<lparr>ticks := ticks w + 1\<rparr>))"
  using assms by (simp add: Manager_isValid_def time_IsZero_def fresh_def window_in_range)

lemma isValid_mgr: "mgr (snd (Manager_isValid clk w)) = mgr w"
  and isValid_fetches: "fetches (snd (Manager_isValid clk w)) = fetches w"
  and isValid_completed: "completed (snd (Manager_isValid clk w)) = completed w"
  and isValid_ticks: "ticks w \<le> ticks (snd (Manager_isValid clk w))"
  and isValid_token: "fst (Manager_isValid clk w) \<Longrightarrow> accessToken (mgr w) \<noteq> []"
  by (simp_all add: Manager_isValid_def split: if_splits)

lemma parseResponse_Ok:
  assumes "Manager_parseResponse m tr = Ok (a, rf, sl, ts)"
  shows "sl = (Salt1 tr, Salt2 tr, Salt3 tr, Salt4 tr, Salt5 tr)" and "ts = ServerTime tr sdiv 1000"
  using assms
  by (auto simp: Manager_parseResponse_def Let_def split: outcome.splits sum.splits)

lemma update_valid:
  "fst (Manager_isValid clk w) \<Longrightarrow> Manager_update clk w = (Ok (), snd (Manager_isValid clk w))"
  by (cases "Manager_isValid clk w") (simp add: Manager_update_def)

lemma update_fetches:
  "\<not> fst (Manager_isValid clk w) \<Longrightarrow> fetches (snd (Manager_update clk w)) = fetches w + 1"
proof -
  assume stale: "\<not> fst (Manager_isValid clk w)"
  obtain w1 where v: "Manager_isValid clk w = (False, w1)"
    using stale by (cases "Manager_isValid clk w") simp
  have "fetches w1 = fetches w" using isValid_fetches[of clk w] v by simp
  then show ?thesis
    unfolding Manager_update_def v
    by (simp add: Let_def split: sum.splits option.splits outcome.splits prod.splits)
qed

text \<open>What one call of update can do to the Manager.\<close>

lemma update_cases:
  assumes "Manager_update clk w = (r, w')"
  shows "(mgr w' = mgr w \<and> completed w' = completed w \<and>
           (r = Ok () \<longrightarrow> accessToken (mgr w) \<noteq> [] \<and> fetches w' = fetches w))
       \<or> (r = Ok () \<and> completed w' = completed w + 1 \<and> fetches w' = fetches w + 1 \<and>
          (\<exists>tr a rf. (ServerTime tr sdiv 1000 \<le> 0 \<longrightarrow> ticks w < ticks w') \<and> http (mgr w) (fetches w) = Inr (Some tr)
              \<and> Manager_parseResponse (mgr w) tr =
                   Ok (a, rf, (Salt1 tr, Salt2 tr, Salt3 tr, Salt4 tr, Salt5 tr), ServerTime tr sdiv 1000)
              \<and> mgr w' = (mgr w)\<lparr>accessToken := a, refreshToken := rf,
                    salts := (Salt1 tr, Salt2 tr, Salt3 tr, Salt4 tr, Salt5 tr),
                    tokenTS := (if ServerTime tr sdiv 1000 > 0 then time_Unix (ServerTime tr sdiv 1000)
                                else clk (ticks w' - 1))\<rparr>))"
proof -
  obtain v w1 where v: "Manager_isValid clk w = (v, w1)" by (cases "Manager_isValid clk w")
  have w1: "mgr w1 = mgr w" "fetches w1 = fetches w" "completed w1 = completed w" "ticks w \<le> ticks w1"
    using isValid_mgr[of clk w] isValid_fetches[of clk w] isValid_completed[of clk w]
      isValid_ticks[of w clk] v by simp_all
  show ?thesis
  proof (cases v)
    case True
    then have "accessToken (mgr w) \<noteq> []" using isValid_token[of clk w] v by simp
    then show ?thesis using assms v w1 True by (auto simp: Manager_update_def)
  next
    case False
    show ?thesis
    proof (cases "http (mgr w) (fetches w)")
      case (Inl err)
      then show ?thesis using assms v w1 False by (auto simp: Manager_update_def)
    next
      case (Inr resp)
      show ?thesis
      proof (cases resp)
        case None
        then show ?thesis using assms v w1 False Inr by (auto simp: Manager_update_def)
      next
        case (Some tr)
        show ?thesis
        proof (cases "Manager_parseResponse (mgr w) tr")
          case (Ok res)
          obtain a rf sl ts where res: "res = (a, rf, sl, ts)" by (cases res)
          note facts = parseResponse_Ok[OF Ok[unfolded res]]
          show ?thesis
            using assms v w1 False Inr Some Ok res facts
            by (auto simp: Manager_update_def)
        next
          case (Err e)
          then show ?thesis using assms v w1 False Inr Some by (auto simp: Manager_update_def)
        next
          case (Panicked x)
          then show ?thesis using assms v w1 False Inr Some by (auto simp: Manager_update_def)
        qed
      qed
    qed
  qed
qed

lemma AccessToken_world:
  "snd (Manager_AccessToken clk w) =
     (if fst (Manager_isValid clk w) then snd (Manager_isValid clk w)
      else snd (Manager_update clk (snd (Manager_isValid clk w))))"
  by (simp add: Manager_AccessToken_def split: prod.splits bool.splits outcome.splits)

lemma RefreshToken_world:
  "snd (Manager_RefreshToken clk w) =
     (if fst (Manager_isValid clk w) then snd (Manager_isValid clk w)
      else snd (Manager_update clk (snd (Manager_isValid clk w))))"
  by (simp add: Manager_RefreshToken_def split: prod.splits bool.splits outcome.splits)

lemma AccessToken_Ok:
  assumes "Manager_AccessToken clk w = (Ok t, w')"
  shows "t = accessToken (mgr w') \<and> t \<noteq> []"
proof (cases "fst (Manager_isValid clk w)")
  case True
  then have "accessToken (mgr w) \<noteq> []" by (rule isValid_token)
  moreover obtain w1 where "Manager_isValid clk w = (True, w1)"
    using True by (cases "Manager_isValid clk w") simp
  moreover from this have "mgr w1 = mgr w" using isValid_mgr[of clk w] by simp
  ultimately show ?thesis using assms by (auto simp: Manager_AccessToken_def)
next
  case False
  then obtain w1 where "Manager_isValid clk w = (False, w1)"
    by (cases "Manager_isValid clk w") simp
  then show ?thesis using assms
    by (auto simp: Manager_AccessToken_def split: prod.splits outcome.splits if_splits)
qed

lemma AccessToken_fresh:
  assumes "maxUpdatePeriod (mgr w) = 45 * Second" "fresh (clk (ticks w)) (mgr w)"
  shows "Manager_AccessToken clk w = (Ok (accessToken (mgr w)), w\<lparr>ticks := ticks w + 1\<rparr>)"
proof -
  have "accessToken (mgr w) \<noteq> []" "tokenTS (mgr w) \<noteq> zeroTime"
    using assms(2) by (simp_all add: fresh_def)
  then have "Manager_isValid clk w = (True, w\<lparr>ticks := ticks w + 1\<rparr>)"
    using isValid_fresh[OF assms(1), of clk] assms(2) by simp
  then show ?thesis by (simp add: Manager_AccessToken_def)
qed

lemma AccessToken_stale:
  assumes "maxUpdatePeriod (mgr w) = 45 * Second"
    and "\<not> fresh (clk (ticks w)) (mgr w)" "\<not> fresh (clk (ticks w + 1)) (mgr w)"
  shows "fetches (snd (Manager_AccessToken clk w)) = fetches w + 1"
proof (cases "accessToken (mgr w) = [] \<or> tokenTS (mgr w) = zeroTime")
  case True
  then have v: "Manager_isValid clk w = (False, w)"
    using isValid_fresh[OF assms(1), of clk] by simp
  then show ?thesis
    using update_fetches[of clk w] by (simp add: AccessToken_world)
next
  case False
  let ?w1 = "w\<lparr>ticks := ticks w + 1\<rparr>"
  have v: "Manager_isValid clk w = (False, ?w1)"
    using isValid_fresh[OF assms(1), of clk] False assms(2) by simp
  have "maxUpdatePeriod (mgr ?w1) = 45 * Second" using assms(1) by simp
  from isValid_fresh[OF this, of clk] have "\<not> fst (Manager_isValid clk ?w1)"
    using False assms(3) by simp
  from update_fetches[OF this] show ?thesis
    using v by (simp add: AccessToken_world)
qed

lemma sdiv_truncates: "k sdiv 1000 = sgn k * (\<bar>k\<bar> div 1000)" for k :: int
  by (simp add: signed_divide_int_def)

lemma sdiv_sub_second: "1 \<le> k \<Longrightarrow> k \<le> 999 \<Longrightarrow> k sdiv 1000 = 0" for k :: int
  by (simp add: signed_divide_int_def)

section \<open>Invariants of a run\<close>

lemma invariant_isValid: "run_invariant w \<Longrightarrow> run_invariant (snd (Manager_isValid clk w))"
  by (simp add: run_invariant_def isValid_mgr isValid_completed)

lemma invariant_update:
  assumes "run_invariant w"
  shows "run_invariant (snd (Manager_update clk w))"
proof -
  obtain r w' where u: "Manager_update clk w = (r, w')" by (cases "Manager_update clk w")
  from update_cases[OF u] assms show ?thesis
    unfolding u by (auto simp: run_invariant_def)
qed

lemma NewManager_fields:
  assumes "NewManager rt httpClient = Inr m"
  shows "never_updated m" and "maxUpdatePeriod m = 45 * Second"
  using assms by (auto simp: NewManager_def never_updated_def split: sum.splits)

lemma reachable_invariant: "reachable clk w \<Longrightarrow> run_invariant w"
proof (induction rule: reachable.induct)
  case (start rt httpClient m)
  then show ?case
    using NewManager_fields[OF start] by (simp add: run_invariant_def new_world_def)
next
  case (access_token w)
  then show ?case
    by (simp add: AccessToken_world invariant_isValid invariant_update)
next
  case (refresh_token w)
  then show ?case
    by (simp add: RefreshToken_world invariant_isValid invariant_update)
next
  case (force_update w)
  then show ?case
    by (simp add: Manager_ForceUpdate_def invariant_update)
qed

section \<open>The stub environment, evaluated\<close>

lemma stub_slots:
  "result_int 1 = 1" "result_int 3 = 3" "result_int 100 = 100"
  "result_int 0xFFFFFFFF = - 1" "result_int 200 = 200"
  by (simp_all add: result_int_def)

lemma stub_indicesFromSalts:
  "indicesFromSalts (parser (stub_manager bundle)) s =
     Ok \<lparr>access = [1, 3, 100, - 1, 200], refresh = [1, 3, 100, - 1, 200]\<rparr>"
  by (cases s) (simp add: indicesFromSalts_def stub_manager_def call5_def stub_function_def stub_slots)

lemma stub_sorted: "sortPositions [1, 3, 100, - 1, 200] = [- 1, 1, 3, 100, 200]"
  by (simp add: sortPositions_sort)

lemma stub_slices:
  "sliceSkipAt ''abcdef'' [1, 3, 100, - 1, 200] = Inr ''acef''"
  "sliceSkipAt ''uvwxyz'' [1, 3, 100, - 1, 200] = Inr ''uwyz''"
  "sliceSkipAt [] [1, 3, 100, - 1, 200] = Inr []"
  by (simp_all add: sliceSkipAt_def stub_sorted slice_def)

lemma stub_sdiv: "(1700000000123 :: int) sdiv 1000 = 1700000000" "(500 :: int) sdiv 1000 = 0"
  by (simp_all add: signed_divide_int_def)

lemma stub_NewManager:
  "NewManager (stub_runtime (stub_module stub_indices)) (stub_http bundle) = Inr (stub_manager bundle)"
  by (simp add: NewManager_def newTokenParser_def getExport_def stub_runtime_def stub_module_def
      stub_indices_def stub_manager_def)

lemma stub_reachable: "reachable clk (new_world (stub_manager bundle))"
  using stub_NewManager by (rule reachable.start)

lemma stub_parse:
  assumes "sliceSkipAt ra [1, 3, 100, - 1, 200] = Inr a" "sliceSkipAt rr [1, 3, 100, - 1, 200] = Inr r"
    and "parser m = parser (stub_manager b)"
  shows "Manager_parseResponse m (stub_bundle ra rr st) = Ok (a, r, (1, 2, 3, 4, 5), st sdiv 1000)"
  using assms stub_indicesFromSalts[of b "(1, 2, 3, 4, 5)"]
  by (simp add: Manager_parseResponse_def stub_bundle_def)

text \<open>A stale Manager of the stub environment fetches the bundle and stores it.\<close>

lemma stub_update:
  assumes "sliceSkipAt ra [1, 3, 100, - 1, 200] = Inr a" "sliceSkipAt rr [1, 3, 100, - 1, 200] = Inr r"
    and "http (mgr w) = stub_http (stub_bundle ra rr st)" "parser (mgr w) = parser (stub_manager b)"
    and "Manager_isValid clk w = (False, w1)" "0 < st sdiv 1000"
  shows "Manager_update clk w =
     (Ok (), w1\<lparr>fetches := fetches w1 + 1,
                mgr := (mgr w1)\<lparr>accessToken := a, refreshToken := r,
                  salts := (1, 2, 3, 4, 5), tokenTS := time_Unix (st sdiv 1000)\<rparr>,
                completed := completed w1 + 1\<rparr>)"
proof -
  have m: "mgr w1 = mgr w" using isValid_mgr[of clk w] assms(5) by simp
  have p: "Manager_parseResponse (mgr w1) (stub_bundle ra rr st) = Ok (a, r, (1, 2, 3, 4, 5), st sdiv 1000)"
    using assms(1,2,4) m by (intro stub_parse) simp_all
  show ?thesis
    unfolding Manager_update_def assms(5)
    using assms(3,6) m p by (simp add: stub_http_def)
qed

lemma new_world_stale: "Manager_isValid clk (new_world (stub_manager b)) = (False, new_world (stub_manager b))"
  by (simp add: Manager_isValid_def new_world_def stub_manager_def)

lemma stub_first_update:
  assumes "sliceSkipAt ra [1, 3, 100, - 1, 200] = Inr a" "sliceSkipAt rr [1, 3, 100, - 1, 200] = Inr r"
  shows "Manager_update clk (new_world (stub_manager (stub_bundle ra rr 1700000000123))) =
     (Ok (), \<lparr>mgr = (stub_manager (stub_bundle ra rr 1700000000123))
                  \<lparr>accessToken := a, refreshToken := r,
                   salts := (1, 2, 3, 4, 5), tokenTS := time_Unix 1700000000\<rparr>,
              fetches = 1, ticks = 0, completed = 1\<rparr>)"
proof -
  let ?b = "stub_bundle ra rr 1700000000123"
  have "Manager_update clk (new_world (stub_manager ?b)) =
     (Ok (), (new_world (stub_manager ?b))\<lparr>fetches := fetches (new_world (stub_manager ?b)) + 1,
                mgr := (mgr (new_world (stub_manager ?b)))\<lparr>accessToken := a, refreshToken := r,
                  salts := (1, 2, 3, 4, 5), tokenTS := time_Unix (1700000000123 sdiv 1000)\<rparr>,
                completed := completed (new_world (stub_manager ?b)) + 1\<rparr>)"
    by (rule stub_update[OF assms _ _ new_world_stale, where b = ?b])
       (simp_all add: new_world_def stub_manager_def stub_sdiv)
  then show ?thesis by (simp add: new_world_def stub_sdiv)
qed

lemma stub_fresh_after:
  "a \<noteq> [] \<Longrightarrow>
   Manager_isValid stub_clock \<lparr>mgr = (stub_manager b)\<lparr>accessToken := a, refreshToken := r,
                   salts := s, tokenTS := time_Unix 1700000000\<rparr>,
              fetches = n, ticks = 0, completed = c\<rparr>
   = (True, \<lparr>mgr = (stub_manager b)\<lparr>accessToken := a, refreshToken := r,
                   salts := s, tokenTS := time_Unix 1700000000\<rparr>,
              fetches = n, ticks = 1, completed = c\<rparr>)"
  by (simp add: Manager_isValid_def stub_manager_def stub_clock_def time_IsZero_def zeroTime_def
      time_Unix_def Second_def time_Sub_def minDuration_def maxDuration_def)

lemma stub_first_AccessToken:
  assumes "sliceSkipAt ra [1, 3, 100, - 1, 200] = Inr a" "sliceSkipAt rr [1, 3, 100, - 1, 200] = Inr r"
    and "a \<noteq> []"
  shows "Manager_AccessToken clk (new_world (stub_manager (stub_bundle ra rr 1700000000123))) =
     (Ok a, \<lparr>mgr = (stub_manager (stub_bundle ra rr 1700000000123))
                  \<lparr>accessToken := a, refreshToken := r,
                   salts := (1, 2, 3, 4, 5), tokenTS := time_Unix 1700000000\<rparr>,
              fetches = 1, ticks = 0, completed = 1\<rparr>)"
  using assms(3)
  by (simp add: Manager_AccessToken_def new_world_stale stub_first_update[OF assms(1,2)])

lemma stub_stale_later:
  "a \<noteq> [] \<Longrightarrow> 0 < k \<Longrightarrow>
   \<not> fresh (stub_clock k) ((stub_manager b)\<lparr>accessToken := a, refreshToken := r,
                   salts := s, tokenTS := time_Unix 1700000000\<rparr>)"
  by (simp add: fresh_def stub_clock_def time_Unix_def Second_def)

lemma stub_fresh_first:
  "a \<noteq> [] \<Longrightarrow>
   fresh (stub_clock 0) ((stub_manager b)\<lparr>accessToken := a, refreshToken := r,
                   salts := s, tokenTS := time_Unix 1700000000\<rparr>)"
  by (simp add: fresh_def stub_clock_def time_Unix_def Second_def zeroTime_def)

lemma stub_update_local:
  assumes "sliceSkipAt ra [1, 3, 100, - 1, 200] = Inr a" "sliceSkipAt rr [1, 3, 100, - 1, 200] = Inr r"
  shows "Manager_update clk (new_world (stub_manager (stub_bundle ra rr 500))) =
     (Ok (), \<lparr>mgr = (stub_manager (stub_bundle ra rr 500))
                  \<lparr>accessToken := a, refreshToken := r,
                   salts := (1, 2, 3, 4, 5), tokenTS := clk 0\<rparr>,
              fetches = 1, ticks = 1, completed = 1\<rparr>)"
proof -
  let ?b = "stub_bundle ra rr 500"
  have m: "mgr (new_world (stub_manager ?b)) = stub_manager ?b" by (simp add: new_world_def)
  have p: "Manager_parseResponse (stub_manager ?b) ?b = Ok (a, r, (1, 2, 3, 4, 5), 500 sdiv 1000)"
    using assms by (intro stub_parse[where b = ?b]) simp_all
  have h: "http (stub_manager ?b) k = Inr (Some ?b)" for k
    by (simp add: stub_manager_def stub_http_def)
  show ?thesis
    unfolding Manager_update_def new_world_stale
    by (simp add: m h p stub_sdiv) (simp add: new_world_def)
qed


section \<open>Steps of concurrent callers\<close>

lemma run_Cons: "run clk (i # sched) s = run clk sched (step clk i s)"
  by (simp add: run_def)

lemma run_Nil: "run clk [] s = s"
  by (simp add: run_def)

lemma update_store:
  "Manager_update clk w =
     (case Manager_isValid clk w of
        (True, w1) \<Rightarrow> (Ok (), w1)
      | (False, w1) \<Rightarrow>
         (case http (mgr w1) (fetches w1) of
            Inl err \<Rightarrow> (Err (Errorf ''get token'' err), w1\<lparr>fetches := fetches w1 + 1\<rparr>)
          | Inr None \<Rightarrow> (Panicked NilDereference, w1\<lparr>fetches := fetches w1 + 1\<rparr>)
          | Inr (Some tr) \<Rightarrow>
             (case Manager_parseResponse (mgr w1) tr of
                Err err \<Rightarrow> (Err err, w1\<lparr>fetches := fetches w1 + 1\<rparr>)
              | Panicked x \<Rightarrow> (Panicked x, w1\<lparr>fetches := fetches w1 + 1\<rparr>)
              | Ok (a, r, sl, ts) \<Rightarrow> (Ok (), store clk a r sl ts (w1\<lparr>fetches := fetches w1 + 1\<rparr>)))))"
  by (simp add: Manager_update_def store_def Let_def
      split: prod.splits bool.splits sum.splits option.splits outcome.splits)


lemma step_Start:
  "i < length (pcs s) \<Longrightarrow> pcs s ! i = Start \<Longrightarrow> Manager_isValid clk (shared s) = (v, w) \<Longrightarrow>
   step clk i s = s\<lparr>shared := w, pcs := (pcs s)[i := if v then ReadCached else EnterUpdate]\<rparr>"
  by (simp add: step_def goto_def)

lemma step_ReadCached:
  "i < length (pcs s) \<Longrightarrow> pcs s ! i = ReadCached \<Longrightarrow>
   step clk i s = s\<lparr>pcs := (pcs s)[i := Done (Ok (accessToken (mgr (shared s))))]\<rparr>"
  by (simp add: step_def goto_def)

lemma step_EnterUpdate:
  "i < length (pcs s) \<Longrightarrow> pcs s ! i = EnterUpdate \<Longrightarrow>
   step clk i s = (if flight s = None then s\<lparr>flight := Some i, pcs := (pcs s)[i := LeaderCheck]\<rparr>
                   else s\<lparr>pcs := (pcs s)[i := Waiting]\<rparr>)"
  by (auto simp: step_def goto_def split: option.splits)

lemma step_LeaderCheck:
  "i < length (pcs s) \<Longrightarrow> pcs s ! i = LeaderCheck \<Longrightarrow> Manager_isValid clk (shared s) = (v, w) \<Longrightarrow>
   step clk i s = s\<lparr>shared := w, pcs := (pcs s)[i := if v then LeaderFinish (Ok ()) else LeaderFetch]\<rparr>"
  by (simp add: step_def goto_def)

lemma step_LeaderFetch:
  "i < length (pcs s) \<Longrightarrow> pcs s ! i = LeaderFetch \<Longrightarrow>
   step clk i s = s\<lparr>shared := (shared s)\<lparr>fetches := fetches (shared s) + 1\<rparr>,
                    pcs := (pcs s)[i := LeaderStore (http (mgr (shared s)) (fetches (shared s)))]\<rparr>"
  by (simp add: step_def goto_def)

lemma step_LeaderStore_Inl:
  "i < length (pcs s) \<Longrightarrow> pcs s ! i = LeaderStore (Inl err) \<Longrightarrow>
   step clk i s = s\<lparr>pcs := (pcs s)[i := LeaderFinish (Err (Errorf ''get token'' err))]\<rparr>"
  by (simp add: step_def goto_def)

lemma step_LeaderStore_nil:
  "i < length (pcs s) \<Longrightarrow> pcs s ! i = LeaderStore (Inr None) \<Longrightarrow>
   step clk i s = s\<lparr>pcs := (pcs s)[i := LeaderFinish (Panicked NilDereference)]\<rparr>"
  by (simp add: step_def goto_def)

lemma step_LeaderStore_Err:
  "i < length (pcs s) \<Longrightarrow> pcs s ! i = LeaderStore (Inr (Some tr)) \<Longrightarrow>
   Manager_parseResponse (mgr (shared s)) tr = Err err \<Longrightarrow>
   step clk i s = s\<lparr>pcs := (pcs s)[i := LeaderFinish (Err err)]\<rparr>"
  by (simp add: step_def goto_def)

lemma step_LeaderStore_Panicked:
  "i < length (pcs s) \<Longrightarrow> pcs s ! i = LeaderStore (Inr (Some tr)) \<Longrightarrow>
   Manager_parseResponse (mgr (shared s)) tr = Panicked x \<Longrightarrow>
   step clk i s = s\<lparr>pcs := (pcs s)[i := LeaderFinish (Panicked x)]\<rparr>"
  by (simp add: step_def goto_def)

lemma step_LeaderStore_Ok:
  "i < length (pcs s) \<Longrightarrow> pcs s ! i = LeaderStore (Inr (Some tr)) \<Longrightarrow>
   Manager_parseResponse (mgr (shared s)) tr = Ok (a, r, sl, ts) \<Longrightarrow>
   step clk i s = s\<lparr>shared := store clk a r sl ts (shared s),
                    pcs := (pcs s)[i := LeaderFinish (Ok ())]\<rparr>"
  by (simp add: step_def goto_def)

lemma step_LeaderFinish:
  "i < length (pcs s) \<Longrightarrow> pcs s ! i = LeaderFinish r \<Longrightarrow>
   step clk i s = s\<lparr>flight := None, pcs := map (release r) ((pcs s)[i := AfterUpdate r])\<rparr>"
  by (simp add: step_def)

lemma step_AfterUpdate:
  "i < length (pcs s) \<Longrightarrow> pcs s ! i = AfterUpdate r \<Longrightarrow>
   step clk i s = s\<lparr>pcs := (pcs s)[i := Done
     (case r of Err err \<Rightarrow> Err err | Panicked x \<Rightarrow> Panicked x
      | Ok u \<Rightarrow> if accessToken (mgr (shared s)) = []
                then Err (ErrorString ''empty access token after update'')
                else Ok (accessToken (mgr (shared s))))]\<rparr>"
  by (cases r) (simp_all add: step_def goto_def)

lemma step_Done:
  "pcs s ! i = Done r \<Longrightarrow> step clk i s = s"
  by (simp add: step_def)


lemma run_Done: "pcs s ! 0 = Done r \<Longrightarrow> run clk (replicate n 0) s = s"
  by (induction n) (simp_all add: run_Nil run_Cons step_Done)

text \<open>One caller running alone does what the sequential \<open>AccessToken\<close> does.\<close>

lemma run_finished: "pcs s = [Done r] \<Longrightarrow> run clk sched s = s"
proof (induction sched)
  case Nil
  then show ?case by (simp add: run_Nil)
next
  case (Cons i sched)
  have "step clk i s = s" using Cons.prems by (cases i) (simp_all add: step_def)
  then show ?case using Cons by (simp add: run_Cons)
qed

lemma step_finished:
  "step clk i \<lparr>shared = w, flight = f, pcs = [Done r]\<rparr> = \<lparr>shared = w, flight = f, pcs = [Done r]\<rparr>"
  by (cases i) (simp_all add: step_def)

lemma AccessToken_stale_result:
  "Manager_isValid clk w = (False, w1) \<Longrightarrow> Manager_update clk w1 = (r, w2) \<Longrightarrow>
   Manager_AccessToken clk w = (accessor_result r w2, w2)"
  by (cases r) (simp_all add: Manager_AccessToken_def accessor_result_def)

lemma solo_finish:
  "run clk (0 # 0 # sched) \<lparr>shared = w, flight = Some 0, pcs = [LeaderFinish r]\<rparr>
   = \<lparr>shared = w, flight = None, pcs = [Done (accessor_result r w)]\<rparr>"
proof -
  have 1: "step clk 0 \<lparr>shared = w, flight = Some 0, pcs = [LeaderFinish r]\<rparr>
         = \<lparr>shared = w, flight = None, pcs = [AfterUpdate r]\<rparr>"
    by (simp add: step_LeaderFinish release_def)
  have 2: "step clk 0 \<lparr>shared = w, flight = None, pcs = [AfterUpdate r]\<rparr>
         = \<lparr>shared = w, flight = None, pcs = [Done (accessor_result r w)]\<rparr>"
    by (cases r) (simp_all add: step_AfterUpdate accessor_result_def)
  show ?thesis
    by (simp add: run_Cons 1 2 run_finished)
qed

lemma solo_update:
  assumes "Manager_update clk w1 = (r, w2)"
  shows "run clk [0, 0, 0, 0, 0, 0, 0] \<lparr>shared = w1, flight = None, pcs = [EnterUpdate]\<rparr>
       = \<lparr>shared = w2, flight = None, pcs = [Done (accessor_result r w2)]\<rparr>"
proof -
  obtain v wc where v: "Manager_isValid clk w1 = (v, wc)" by (cases "Manager_isValid clk w1")
  have 1: "step clk 0 \<lparr>shared = w1, flight = None, pcs = [EnterUpdate]\<rparr>
         = \<lparr>shared = w1, flight = Some 0, pcs = [LeaderCheck]\<rparr>"
    by (simp add: step_EnterUpdate)
  have 2: "step clk 0 \<lparr>shared = w1, flight = Some 0, pcs = [LeaderCheck]\<rparr>
         = \<lparr>shared = wc, flight = Some 0, pcs = [if v then LeaderFinish (Ok ()) else LeaderFetch]\<rparr>"
    using v by (simp add: step_LeaderCheck[where v = v and w = wc])
  show ?thesis
  proof (cases v)
    case True
    then have "r = Ok ()" "w2 = wc" using assms v by (simp_all add: update_store)
    then show ?thesis using True by (simp add: run_Cons run_Nil 1 2 step_LeaderFinish release_def
        step_AfterUpdate accessor_result_def step_finished)
  next
    case False
    let ?wf = "wc\<lparr>fetches := Suc (fetches wc)\<rparr>"
    have 3: "step clk 0 \<lparr>shared = wc, flight = Some 0, pcs = [LeaderFetch]\<rparr>
         = \<lparr>shared = ?wf, flight = Some 0, pcs = [LeaderStore (http (mgr wc) (fetches wc))]\<rparr>"
      by (simp add: step_LeaderFetch)
    have 4: "step clk 0 \<lparr>shared = ?wf, flight = Some 0, pcs = [LeaderStore (http (mgr wc) (fetches wc))]\<rparr>
         = \<lparr>shared = w2, flight = Some 0, pcs = [LeaderFinish r]\<rparr>"
    proof (cases "http (mgr wc) (fetches wc)")
      case (Inl err)
      then show ?thesis using assms v False by (auto simp: step_LeaderStore_Inl update_store)
    next
      case (Inr resp)
      show ?thesis
      proof (cases resp)
        case None
        then show ?thesis using assms v False Inr by (auto simp: step_LeaderStore_nil update_store)
      next
        case (Some tr)
        show ?thesis
        proof (cases "Manager_parseResponse (mgr wc) tr")
          case (Ok res)
          obtain a rf sl ts where "res = (a, rf, sl, ts)" by (cases res)
          then show ?thesis using assms v False Inr Some Ok
            by (auto simp: step_LeaderStore_Ok[where a = a and r = rf and sl = sl and ts = ts] update_store)
        next
          case (Err e)
          then show ?thesis using assms v False Inr Some
            by (auto simp: step_LeaderStore_Err update_store)
        next
          case (Panicked x)
          then show ?thesis using assms v False Inr Some
            by (auto simp: step_LeaderStore_Panicked update_store)
        qed
      qed
    qed
    have 5: "step clk 0 \<lparr>shared = w2, flight = Some 0, pcs = [LeaderFinish r]\<rparr>
         = \<lparr>shared = w2, flight = None, pcs = [AfterUpdate r]\<rparr>"
      by (simp add: step_LeaderFinish release_def)
    have 6: "step clk 0 \<lparr>shared = w2, flight = None, pcs = [AfterUpdate r]\<rparr>
         = \<lparr>shared = w2, flight = None, pcs = [Done (accessor_result r w2)]\<rparr>"
      by (cases r) (simp_all add: step_AfterUpdate accessor_result_def)
    show ?thesis using False by (simp add: run_Cons run_Nil 1 2 3 4 5 6 step_finished)
  qed
qed

lemma solo_caller:
  "run clk [0, 0, 0, 0, 0, 0, 0, 0] \<lparr>shared = w, flight = None, pcs = [Start]\<rparr>
     = \<lparr>shared = snd (Manager_AccessToken clk w), flight = None,
        pcs = [Done (fst (Manager_AccessToken clk w))]\<rparr>"
proof -
  obtain v w1 where v: "Manager_isValid clk w = (v, w1)" by (cases "Manager_isValid clk w")
  have 1: "step clk 0 \<lparr>shared = w, flight = None, pcs = [Start]\<rparr>
         = \<lparr>shared = w1, flight = None, pcs = [if v then ReadCached else EnterUpdate]\<rparr>"
    using v by (simp add: step_Start[where v = v and w = w1])
  show ?thesis
  proof (cases v)
    case True
    have 2: "step clk 0 \<lparr>shared = w1, flight = None, pcs = [ReadCached]\<rparr>
         = \<lparr>shared = w1, flight = None, pcs = [Done (Ok (accessToken (mgr w1)))]\<rparr>"
      by (simp add: step_ReadCached)
    have "Manager_AccessToken clk w = (Ok (accessToken (mgr w1)), w1)"
      using v True by (simp add: Manager_AccessToken_def)
    then show ?thesis using True by (simp add: run_Cons run_Nil 1 2 step_finished)
  next
    case False
    obtain r w2 where u: "Manager_update clk w1 = (r, w2)" by (cases "Manager_update clk w1")
    have "Manager_AccessToken clk w = (accessor_result r w2, w2)"
      using v False u by (simp add: AccessToken_stale_result)
    moreover have "run clk [0, 0, 0, 0, 0, 0, 0, 0] \<lparr>shared = w, flight = None, pcs = [Start]\<rparr>
        = run clk [0, 0, 0, 0, 0, 0, 0] \<lparr>shared = w1, flight = None, pcs = [EnterUpdate]\<rparr>"
      using False by (simp only: run_Cons 1 if_False)
    ultimately show ?thesis using solo_update[OF u] by simp
  qed
qed

section \<open>Two callers, evaluated\<close>









section \<open>One fetch when the first bundle is good\<close>

lemma release_leader [simp]: "is_leader (release r p) = is_leader p"
  by (cases p) (simp_all add: release_def)














section \<open>Claims about \<open>sliceSkipAt\<close>\<close>

text \<open>
  C1. For every raw token \<open>s\<close> and pairwise-distinct positions, \<open>sliceSkipAt\<close> returns,
  in their original order, exactly the bytes of \<open>s\<close> whose position is not one of the
  listed positions that lie inside \<open>s\<close>. The positions are sorted ascending internally
  (the sorted copy is ascending and holds the same positions), a position below \<open>0\<close> or
  at or beyond the length of \<open>s\<close> is skipped without an error, and an empty list of
  positions returns \<open>s\<close> unchanged. In particular \<open>"abcdef"\<close> without \<open>[1,3]\<close> is
  \<open>"acef"\<close> and \<open>"abc"\<close> without \<open>[5,-1,1]\<close> is \<open>"ac"\<close>.
\<close>

theorem sliceSkipAt_removes_listed:
  "(distinct positions \<longrightarrow> sliceSkipAt s positions = Inr (skip_listed s positions))
   \<and> sorted (sortPositions positions)
   \<and> mset (sortPositions positions) = mset positions
   \<and> sliceSkipAt s [] = Inr s
   \<and> sliceSkipAt ''abcdef'' [1, 3] = Inr ''acef''
   \<and> sliceSkipAt ''abc'' [5, - 1, 1] = Inr ''ac''"
proof -
  have "sliceSkipAt ''abcdef'' [1, 3] = Inr ''acef''"
    by (simp add: sliceSkipAt_eval)
  moreover have "sliceSkipAt ''abc'' [5, - 1, 1] = Inr ''ac''"
    by (simp add: sliceSkipAt_eval)
  moreover have "sliceSkipAt s [] = Inr s"
    by (simp add: sliceSkipAt_def)
  ultimately show ?thesis
    by (simp add: sliceSkipAt_distinct sortPositions_sort)
qed

theorem sliceSkipAt_removes_listed_witness:
  "distinct [4, - 2, 0 :: int] \<and> sliceSkipAt ''token'' [4, - 2, 0] = Inr ''oke''"
proof -
  have d: "distinct [4, - 2, 0 :: int]" by simp
  have "sliceSkipAt ''token'' [4, - 2, 0] = Inr (skip_listed ''token'' [4, - 2, 0])"
    using sliceSkipAt_removes_listed [of "[4, - 2, 0]" "''token''"] d by blast
  then show ?thesis using d by (simp add: skip_listed_def in_bounds_def upt_rec)
qed

text \<open>
  C9. The result of \<open>sliceSkipAt\<close> does not depend on the order in which the positions
  are supplied: two lists that are permutations of each other give the same outcome.
\<close>

theorem sliceSkipAt_order_independent:
  "mset positions = mset positions' \<Longrightarrow> sliceSkipAt s positions = sliceSkipAt s positions'"
proof -
  assume same: "mset positions = mset positions'"
  then have "sort positions = sort positions'"
    by (simp add: properties_for_sort)
  moreover have "length positions = length positions'"
    using same by (rule mset_eq_length)
  ultimately show ?thesis
    by (simp add: sliceSkipAt_def sortPositions_sort)
qed

theorem sliceSkipAt_order_independent_witness:
  "mset [3, 1 :: int] = mset [1, 3] \<and> sliceSkipAt ''abcdef'' [3, 1] = Inr ''acef''"
proof -
  have m: "mset [3, 1 :: int] = mset [1, 3]" by simp
  have "sliceSkipAt ''abcdef'' [3, 1] = sliceSkipAt ''abcdef'' [1, 3]"
    using sliceSkipAt_order_independent [OF m] .
  then show ?thesis using m by (simp add: sliceSkipAt_eval)
qed

text \<open>
  C10. \<open>sliceSkipAt\<close> is meant never to panic, whatever the positions. A position inside
  the string that is listed twice makes it panic: after the first copy \<open>prev\<close> is
  \<open>p + 1\<close>, and the second evaluates \<open>b[p+1:p]\<close>.
\<close>

theorem sliceSkipAt_duplicate_panics:
  "sliceSkipAt ''abc'' [1, 1] = Inl (SliceBoundsOutOfRange 2 1)"
  by (simp add: sliceSkipAt_eval)


section \<open>Claims about the index derivation\<close>

text \<open>
  C2. The parser holds the exports named \<open>cdx\<close>, \<open>rdx\<close>, \<open>bdx\<close>, \<open>ndx\<close> and \<open>mdx\<close>
  of the module (\<open>F1\<close> .. \<open>F5\<close>), and for all five salts \<open>indicesFromSalts\<close> is the
  derivation of the specification: the access indices are
  \<open>F1(s1,s2,s3,s4,s5)\<close>, \<open>F2(s1,s2,s4,s3,s5)\<close>, \<open>F3(s1,s2,s4,s3,s5)\<close>,
  \<open>F4(s1,s2,s4,s3,s5)\<close>, \<open>F5(s1,s2,s4,s3,s5)\<close> and the refresh indices are
  \<open>F1(s2,s1,s3,s5,s4)\<close>, \<open>F2(s2,s1,s3,s4,s5)\<close>, \<open>F3(s2,s1,s4,s3,s5)\<close>,
  \<open>F4(s2,s1,s4,s3,s5)\<close>, \<open>F5(s2,s1,s4,s3,s5)\<close>. When all ten calls succeed these
  are the indices. When one of them fails, the derivation returns the error of a failed
  call and no indices, and \<open>parseResponse\<close> hands it on wrapped as \<open>wasm parse: %w\<close>.
\<close>

theorem indicesFromSalts_call_contract:
  assumes "CompileModule rt = Inr c" "InstantiateModule rt c = Inr md"
    and "md ''cdx'' = Some F1" "md ''rdx'' = Some F2" "md ''bdx'' = Some F3"
    and "md ''ndx'' = Some F4" "md ''mdx'' = Some F5"
    and "p = \<lparr>cdx = F1, rdx = F2, bdx = F3, ndx = F4, mdx = F5\<rparr>"
    and "calls = ten_calls (call5 F1) (call5 F2) (call5 F3) (call5 F4) (call5 F5) s"
  shows "newTokenParser rt = Inr p
     \<and> indicesFromSalts p s = derivation_spec (call5 F1) (call5 F2) (call5 F3) (call5 F4) (call5 F5) s
     \<and> (\<forall>vs. calls = map Ok vs \<longrightarrow>
           indicesFromSalts p s = Ok \<lparr>access = take 5 vs, refresh = drop 5 vs\<rparr>)
     \<and> (\<forall>e. Err e \<in> set calls \<and> (\<forall>x. Panicked x \<notin> set calls) \<longrightarrow>
           (\<exists>e'. Err e' \<in> set calls \<and> indicesFromSalts p s = Err e' \<and>
                 (\<forall>m tr. parser m = p \<and> (Salt1 tr, Salt2 tr, Salt3 tr, Salt4 tr, Salt5 tr) = s \<longrightarrow>
                    Manager_parseResponse m tr = Err (Errorf ''wasm parse'' e'))))"
proof -
  have new: "newTokenParser rt = Inr p" using assms(1-8) by (simp add: new_parser)
  have ref: "indicesFromSalts p s = derivation_spec (call5 F1) (call5 F2) (call5 F3) (call5 F4) (call5 F5) s"
    using indicesFromSalts_refines[of p s] assms(8) by simp
  have ok: "indicesFromSalts p s = Ok \<lparr>access = take 5 vs, refresh = drop 5 vs\<rparr>"
    if "calls = map Ok vs" for vs
    using that assms(9) by (simp add: ref derivation_spec_def all_succeed_map_Ok)
  have bad: "\<exists>e'. Err e' \<in> set calls \<and> indicesFromSalts p s = Err e' \<and>
                 (\<forall>m tr. parser m = p \<and> (Salt1 tr, Salt2 tr, Salt3 tr, Salt4 tr, Salt5 tr) = s \<longrightarrow>
                    Manager_parseResponse m tr = Err (Errorf ''wasm parse'' e'))"
    if "Err e \<in> set calls \<and> (\<forall>x. Panicked x \<notin> set calls)" for e
  proof -
    from that all_succeed_first_error[of e calls] obtain e' where
      e': "Err e' \<in> set calls" "all_succeed calls = Err e'" by blast
    then have ind: "indicesFromSalts p s = Err e'"
      using assms(9) by (simp add: ref derivation_spec_def)
    have "Manager_parseResponse m tr = Err (Errorf ''wasm parse'' e')"
      if "parser m = p \<and> (Salt1 tr, Salt2 tr, Salt3 tr, Salt4 tr, Salt5 tr) = s" for m tr
      using that ind by (intro parseResponse_wraps) simp
    then show ?thesis using e'(1) ind by (intro exI[of _ e']) simp
  qed
  show ?thesis
    using new ref ok bad by blast
qed

theorem indicesFromSalts_call_contract_witness:
  "indicesFromSalts \<lparr>cdx = nth_arg 3, rdx = nth_arg 2, bdx = nth_arg 0, ndx = nth_arg 3, mdx = nth_arg 4\<rparr>
      (1, 2, 3, 4, 5) = Ok \<lparr>access = [4, 4, 1, 3, 5], refresh = [5, 3, 2, 3, 5]\<rparr>
   \<and> indicesFromSalts \<lparr>cdx = nth_arg 3, rdx = nth_arg 2, bdx = trap, ndx = nth_arg 3, mdx = nth_arg 4\<rparr>
      (1, 2, 3, 4, 5) = Err (Opaque ''unreachable'')"
proof -
  let ?fs = "[nth_arg 3, nth_arg 2, nth_arg 0, nth_arg 3, nth_arg 4]"
  let ?gs = "[nth_arg 3, nth_arg 2, trap, nth_arg 3, nth_arg 4]"
  let ?s = "(1, 2, 3, 4, 5) :: salts5"
  let ?calls = "ten_calls (call5 (nth_arg 3)) (call5 (nth_arg 2)) (call5 (nth_arg 0))
                  (call5 (nth_arg 3)) (call5 (nth_arg 4)) ?s"
  let ?bad = "ten_calls (call5 (nth_arg 3)) (call5 (nth_arg 2)) (call5 trap)
                  (call5 (nth_arg 3)) (call5 (nth_arg 4)) ?s"
  have calls: "?calls = map Ok [4, 4, 1, 3, 5, 5, 3, 2, 3, 5]"
    by (simp add: ten_calls_def call5_nth_arg slot_small)
  have bad: "?bad = [Ok 4, Ok 4, Err (Opaque ''unreachable''), Ok 3, Ok 5,
                     Ok 5, Ok 3, Err (Opaque ''unreachable''), Ok 3, Ok 5]"
    by (simp add: ten_calls_def call5_nth_arg call5_trap slot_small)
  have c: "CompileModule (stub_runtime md) = Inr CompiledModule"
    and i: "InstantiateModule (stub_runtime md) CompiledModule = Inr md" for md
    by (simp_all add: stub_runtime_def)
  have ex: "stub_module [f1, f2, f3, f4, f5] ''cdx'' = Some f1"
      "stub_module [f1, f2, f3, f4, f5] ''rdx'' = Some f2"
      "stub_module [f1, f2, f3, f4, f5] ''bdx'' = Some f3"
      "stub_module [f1, f2, f3, f4, f5] ''ndx'' = Some f4"
      "stub_module [f1, f2, f3, f4, f5] ''mdx'' = Some f5" for f1 f2 f3 f4 f5
    by (simp_all add: stub_module_def)
  note good = indicesFromSalts_call_contract
      [OF c i ex [of "nth_arg 3" "nth_arg 2" "nth_arg 0" "nth_arg 3" "nth_arg 4"] refl refl,
       where s = ?s]
  note fail = indicesFromSalts_call_contract
      [OF c i ex [of "nth_arg 3" "nth_arg 2" trap "nth_arg 3" "nth_arg 4"] refl refl,
       where s = ?s]
  from good have "\<forall>vs. ?calls = map Ok vs \<longrightarrow>
      indicesFromSalts \<lparr>cdx = nth_arg 3, rdx = nth_arg 2, bdx = nth_arg 0, ndx = nth_arg 3, mdx = nth_arg 4\<rparr> ?s
        = Ok \<lparr>access = take 5 vs, refresh = drop 5 vs\<rparr>"
    by blast
  with calls have one:
    "indicesFromSalts \<lparr>cdx = nth_arg 3, rdx = nth_arg 2, bdx = nth_arg 0, ndx = nth_arg 3, mdx = nth_arg 4\<rparr> ?s
       = Ok \<lparr>access = take 5 [4, 4, 1, 3, 5, 5, 3, 2, 3, 5], refresh = drop 5 [4, 4, 1, 3, 5, 5, 3, 2, 3, 5]\<rparr>"
    by blast
  have member: "Err (Opaque ''unreachable'') \<in> set ?bad \<and> (\<forall>x. Panicked x \<notin> set ?bad)"
    by (simp add: bad)
  from fail have "\<forall>e. Err e \<in> set ?bad \<and> (\<forall>x. Panicked x \<notin> set ?bad) \<longrightarrow>
      (\<exists>e'. Err e' \<in> set ?bad \<and>
        indicesFromSalts \<lparr>cdx = nth_arg 3, rdx = nth_arg 2, bdx = trap, ndx = nth_arg 3, mdx = nth_arg 4\<rparr> ?s = Err e')"
    by blast
  with member obtain e' where "Err e' \<in> set ?bad"
    "indicesFromSalts \<lparr>cdx = nth_arg 3, rdx = nth_arg 2, bdx = trap, ndx = nth_arg 3, mdx = nth_arg 4\<rparr> ?s = Err e'"
    by blast
  then have two: "indicesFromSalts \<lparr>cdx = nth_arg 3, rdx = nth_arg 2, bdx = trap, ndx = nth_arg 3, mdx = nth_arg 4\<rparr> ?s
                  = Err (Opaque ''unreachable'')"
    by (auto simp: bad)
  show ?thesis using one two by simp
qed

section \<open>Claims about the Manager\<close>

text \<open>
  C3. \<open>ForceUpdate\<close> is meant to fetch whatever the freshness of the cached tokens.
  It calls \<open>update\<close>, which checks \<open>isValid\<close> first and returns without a fetch when
  the state is fresh: right after a first \<open>ForceUpdate\<close> that fetched, a second one
  succeeds and \<open>GetTokens\<close> has still been called once.
\<close>

theorem ForceUpdate_skips_fetch_when_fresh:
  "fst (Manager_ForceUpdate stub_clock
          (new_world (stub_manager (stub_bundle ''abcdef'' ''uvwxyz'' 1700000000123)))) = Ok ()
   \<and> fetches (snd (Manager_ForceUpdate stub_clock
          (new_world (stub_manager (stub_bundle ''abcdef'' ''uvwxyz'' 1700000000123))))) = 1
   \<and> fst (Manager_ForceUpdate stub_clock (snd (Manager_ForceUpdate stub_clock
          (new_world (stub_manager (stub_bundle ''abcdef'' ''uvwxyz'' 1700000000123)))))) = Ok ()
   \<and> fetches (snd (Manager_ForceUpdate stub_clock (snd (Manager_ForceUpdate stub_clock
          (new_world (stub_manager (stub_bundle ''abcdef'' ''uvwxyz'' 1700000000123))))))) = 1"
  by (simp add: Manager_ForceUpdate_def stub_first_update[OF stub_slices(1) stub_slices(2)]
      update_valid stub_fresh_after)





text \<open>
  C5. In every state that a run can reach the window is 45 seconds. While the cached
  state is fresh, \<open>AccessToken\<close> returns the cached token without a fetch and without
  changing the Manager. While it is not fresh (at the reading of the accessor and at the
  reading of the check inside \<open>update\<close>), \<open>AccessToken\<close> issues exactly one fetch. So
  a first call on a stale state followed by a second call within the window fetches once,
  the second call returning the same token, and a call after the window fetches again.
\<close>

theorem AccessToken_freshness:
  assumes "reachable clk w"
  shows "maxUpdatePeriod (mgr w) = 45 * Second
    \<and> (fresh (clk (ticks w)) (mgr w) \<longrightarrow>
         Manager_AccessToken clk w = (Ok (accessToken (mgr w)), w\<lparr>ticks := ticks w + 1\<rparr>))
    \<and> (\<not> fresh (clk (ticks w)) (mgr w) \<and> \<not> fresh (clk (ticks w + 1)) (mgr w) \<longrightarrow>
         fetches (snd (Manager_AccessToken clk w)) = fetches w + 1)
    \<and> (\<forall>t w1. \<not> fresh (clk (ticks w)) (mgr w) \<and> \<not> fresh (clk (ticks w + 1)) (mgr w)
            \<and> Manager_AccessToken clk w = (Ok t, w1) \<and> fresh (clk (ticks w1)) (mgr w1) \<longrightarrow>
         fetches w1 = fetches w + 1
         \<and> Manager_AccessToken clk w1 = (Ok t, w1\<lparr>ticks := ticks w1 + 1\<rparr>))"
proof -
  have period: "maxUpdatePeriod (mgr w) = 45 * Second"
    using reachable_invariant[OF assms] by (simp add: run_invariant_def)
  have twice: "fetches w1 = fetches w + 1
         \<and> Manager_AccessToken clk w1 = (Ok t, w1\<lparr>ticks := ticks w1 + 1\<rparr>)"
    if stale: "\<not> fresh (clk (ticks w)) (mgr w)" "\<not> fresh (clk (ticks w + 1)) (mgr w)"
      and first: "Manager_AccessToken clk w = (Ok t, w1)"
      and again: "fresh (clk (ticks w1)) (mgr w1)" for t w1
  proof -
    have "reachable clk (snd (Manager_AccessToken clk w))"
      using assms by (rule reachable.access_token)
    then have "run_invariant w1" using first by (simp add: reachable_invariant)
    then have p1: "maxUpdatePeriod (mgr w1) = 45 * Second" by (simp add: run_invariant_def)
    have "t = accessToken (mgr w1)" using AccessToken_Ok[OF first] by simp
    moreover have "fetches w1 = fetches w + 1"
      using AccessToken_stale[OF period stale] first by simp
    ultimately show ?thesis using AccessToken_fresh[of w1 clk] p1 again by simp
  qed
  show ?thesis
    using period AccessToken_fresh[of w clk] AccessToken_stale[OF period] twice by blast
qed

theorem AccessToken_freshness_witness:
  "fst (Manager_AccessToken stub_clock
         (new_world (stub_manager (stub_bundle ''abcdef'' ''uvwxyz'' 1700000000123)))) = Ok ''acef''
   \<and> fetches (snd (Manager_AccessToken stub_clock
         (new_world (stub_manager (stub_bundle ''abcdef'' ''uvwxyz'' 1700000000123))))) = 1
   \<and> fst (Manager_AccessToken stub_clock (snd (Manager_AccessToken stub_clock
         (new_world (stub_manager (stub_bundle ''abcdef'' ''uvwxyz'' 1700000000123)))))) = Ok ''acef''
   \<and> fetches (snd (Manager_AccessToken stub_clock (snd (Manager_AccessToken stub_clock
         (new_world (stub_manager (stub_bundle ''abcdef'' ''uvwxyz'' 1700000000123))))))) = 1
   \<and> fetches (snd (Manager_AccessToken stub_clock (snd (Manager_AccessToken stub_clock
         (snd (Manager_AccessToken stub_clock
         (new_world (stub_manager (stub_bundle ''abcdef'' ''uvwxyz'' 1700000000123))))))))) = 2"
proof -
  let ?b = "stub_bundle ''abcdef'' ''uvwxyz'' 1700000000123"
  let ?w0 = "new_world (stub_manager ?b)"
  let ?m1 = "(stub_manager ?b)\<lparr>accessToken := ''acef'', refreshToken := ''uwyz'',
                   salts := (1, 2, 3, 4, 5), tokenTS := time_Unix 1700000000\<rparr>"
  let ?w1 = "\<lparr>mgr = ?m1, fetches = 1, ticks = 0, completed = 1\<rparr>"
  let ?w2 = "?w1\<lparr>ticks := ticks ?w1 + 1\<rparr>"
  have r0: "reachable stub_clock ?w0" by (rule stub_reachable)
  have a1: "Manager_AccessToken stub_clock ?w0 = (Ok ''acef'', ?w1)"
    using stub_first_AccessToken[OF stub_slices(1) stub_slices(2), of stub_clock] by simp
  have stale0: "\<not> fresh (stub_clock (ticks ?w0)) (mgr ?w0)" "\<not> fresh (stub_clock (ticks ?w0 + 1)) (mgr ?w0)"
    by (simp_all add: fresh_def new_world_def stub_manager_def)
  have fresh1: "fresh (stub_clock (ticks ?w1)) (mgr ?w1)"
    using stub_fresh_first[where a = "''acef''" and b = ?b] by simp
  from AccessToken_freshness[OF r0] stale0 a1 fresh1
  have second: "fetches ?w1 = fetches ?w0 + 1
       \<and> Manager_AccessToken stub_clock ?w1 = (Ok ''acef'', ?w2)"
    by blast
  have "reachable stub_clock (snd (Manager_AccessToken stub_clock ?w0))"
    using r0 by (rule reachable.access_token)
  then have "reachable stub_clock (snd (Manager_AccessToken stub_clock (snd (Manager_AccessToken stub_clock ?w0))))"
    by (rule reachable.access_token)
  then have r2: "reachable stub_clock ?w2" using a1 second by simp
  have stale2: "\<not> fresh (stub_clock (ticks ?w2)) (mgr ?w2)" "\<not> fresh (stub_clock (ticks ?w2 + 1)) (mgr ?w2)"
    using stub_stale_later[where a = "''acef''" and b = ?b] by simp_all
  from AccessToken_freshness[OF r2] stale2
  have third: "fetches (snd (Manager_AccessToken stub_clock ?w2)) = fetches ?w2 + 1"
    by blast
  show ?thesis
    using a1 second third by simp
qed

text \<open>
  C6. An empty token is meant never to be returned as valid. \<open>AccessToken\<close> stores a
  non-empty access token and an empty refresh token; the state is fresh, because
  \<open>isValid\<close> looks at the access token only, and \<open>RefreshToken\<close> then returns the
  empty string without an error.
\<close>

theorem RefreshToken_returns_cached_empty:
  "fst (Manager_AccessToken stub_clock
          (new_world (stub_manager (stub_bundle ''abcdef'' [] 1700000000123)))) = Ok ''acef''
   \<and> fst (Manager_RefreshToken stub_clock (snd (Manager_AccessToken stub_clock
          (new_world (stub_manager (stub_bundle ''abcdef'' [] 1700000000123)))))) = Ok []"
  by (simp add: stub_first_AccessToken[OF stub_slices(1) stub_slices(3)]
      Manager_RefreshToken_def stub_fresh_after)





text \<open>
  C8. After a successful update that fetched a bundle, the stored timestamp is the
  server time in milliseconds divided by 1000, truncated, read as Unix seconds, when that
  quotient is positive; otherwise it is the reading of the local clock taken at the end of
  the update. For a server time from 1 to 999 milliseconds the quotient is 0 and the local
  clock is used.
\<close>

theorem update_timestamp:
  assumes "Manager_update clk w = (Ok (), w')" and "fetches w' \<noteq> fetches w"
  shows "\<exists>tr. http (mgr w) (fetches w) = Inr (Some tr)
     \<and> ServerTime tr sdiv 1000 = sgn (ServerTime tr) * (\<bar>ServerTime tr\<bar> div 1000)
     \<and> (0 < ServerTime tr sdiv 1000 \<longrightarrow> tokenTS (mgr w') = time_Unix (ServerTime tr sdiv 1000))
     \<and> (ServerTime tr sdiv 1000 \<le> 0 \<longrightarrow>
           tokenTS (mgr w') = clk (ticks w' - 1) \<and> ticks w < ticks w')
     \<and> (1 \<le> ServerTime tr \<and> ServerTime tr \<le> 999 \<longrightarrow>
           ServerTime tr sdiv 1000 = 0 \<and> tokenTS (mgr w') = clk (ticks w' - 1))"
proof -
  from update_cases[OF assms(1)] assms(2) obtain tr a rf where
    tr: "http (mgr w) (fetches w) = Inr (Some tr)"
    and tk: "ServerTime tr sdiv 1000 \<le> 0 \<longrightarrow> ticks w < ticks w'"
    and m: "mgr w' = (mgr w)\<lparr>accessToken := a, refreshToken := rf,
                    salts := (Salt1 tr, Salt2 tr, Salt3 tr, Salt4 tr, Salt5 tr),
                    tokenTS := (if ServerTime tr sdiv 1000 > 0 then time_Unix (ServerTime tr sdiv 1000)
                                else clk (ticks w' - 1))\<rparr>"
    by auto
  have ts: "tokenTS (mgr w') = (if ServerTime tr sdiv 1000 > 0 then time_Unix (ServerTime tr sdiv 1000)
                                else clk (ticks w' - 1))"
    by (simp add: m)
  show ?thesis
  proof (intro exI[of _ tr] conjI impI)
    show "http (mgr w) (fetches w) = Inr (Some tr)" by fact
    show "ServerTime tr sdiv 1000 = sgn (ServerTime tr) * (\<bar>ServerTime tr\<bar> div 1000)"
      by (rule sdiv_truncates)
    show "tokenTS (mgr w') = time_Unix (ServerTime tr sdiv 1000)" if "0 < ServerTime tr sdiv 1000"
      using that ts by simp
    show "tokenTS (mgr w') = clk (ticks w' - 1)" if "ServerTime tr sdiv 1000 \<le> 0"
      using that ts by simp
    show "ticks w < ticks w'" if "ServerTime tr sdiv 1000 \<le> 0"
      using that tk by simp
    show "ServerTime tr sdiv 1000 = 0" if "1 \<le> ServerTime tr \<and> ServerTime tr \<le> 999"
      using that by (simp add: sdiv_sub_second)
    show "tokenTS (mgr w') = clk (ticks w' - 1)" if "1 \<le> ServerTime tr \<and> ServerTime tr \<le> 999"
      using that ts by (simp add: sdiv_sub_second)
  qed
qed

theorem update_timestamp_witness:
  "tokenTS (mgr (snd (Manager_update stub_clock
       (new_world (stub_manager (stub_bundle ''abcdef'' ''uvwxyz'' 1700000000123))))))
     = time_Unix 1700000000
   \<and> tokenTS (mgr (snd (Manager_update stub_clock
       (new_world (stub_manager (stub_bundle ''abcdef'' ''uvwxyz'' 500))))))
     = stub_clock 0"
proof -
  let ?b = "stub_bundle ''abcdef'' ''uvwxyz'' 1700000000123"
  let ?c = "stub_bundle ''abcdef'' ''uvwxyz'' 500"
  obtain w' where u: "Manager_update stub_clock (new_world (stub_manager ?b)) = (Ok (), w')"
    and f: "fetches w' \<noteq> fetches (new_world (stub_manager ?b))"
    using stub_first_update[OF stub_slices(1) stub_slices(2), of stub_clock]
    by (simp add: new_world_def)
  from update_timestamp[OF u f] obtain tr where
    "http (mgr (new_world (stub_manager ?b))) (fetches (new_world (stub_manager ?b))) = Inr (Some tr)"
    "0 < ServerTime tr sdiv 1000 \<longrightarrow> tokenTS (mgr w') = time_Unix (ServerTime tr sdiv 1000)"
    by blast
  then have one: "tokenTS (mgr w') = time_Unix 1700000000"
    by (auto simp: new_world_def stub_manager_def stub_http_def stub_bundle_def stub_sdiv)
  obtain w'' where u2: "Manager_update stub_clock (new_world (stub_manager ?c)) = (Ok (), w'')"
    and f2: "fetches w'' \<noteq> fetches (new_world (stub_manager ?c))" and t2: "ticks w'' = 1"
    using stub_update_local[OF stub_slices(1) stub_slices(2), of stub_clock]
    by (simp add: new_world_def)
  from update_timestamp[OF u2 f2] obtain tr2 where
    "http (mgr (new_world (stub_manager ?c))) (fetches (new_world (stub_manager ?c))) = Inr (Some tr2)"
    "1 \<le> ServerTime tr2 \<and> ServerTime tr2 \<le> 999 \<longrightarrow>
           ServerTime tr2 sdiv 1000 = 0 \<and> tokenTS (mgr w'') = stub_clock (ticks w'' - 1)"
    by blast
  then have two: "tokenTS (mgr w'') = stub_clock 0"
    using t2 by (auto simp: new_world_def stub_manager_def stub_http_def stub_bundle_def)
  show ?thesis using one two u u2 by simp
qed

end
